theory Spec2Isabelle
  imports Main "HOL-Library.AList" "HOL-Library.Sublist"
begin

section \<open>The registry of the service broker\<close>

text \<open>
  The development follows \<^verbatim>\<open>src/registry/registry.js\<close> (class \<^verbatim>\<open>Registry\<close>). The
  registry owns four catalogs (nodes, services, events, actions) whose classes live in
  \<^verbatim>\<open>node-catalog.js\<close>, \<^verbatim>\<open>service-catalog.js\<close>, \<^verbatim>\<open>event-catalog.js\<close> and
  \<^verbatim>\<open>action-catalog.js\<close>. Those four files are not part of the sources at hand; the
  operations of them that \<^verbatim>\<open>Registry\<close> calls are modelled from the specification and
  are marked as such, one by one.

  JavaScript objects are mutable and shared. The model passes the whole registry state
  explicitly. A node object is referred to by its id: the node catalog maps each id to one
  node object and no operation of the registry changes \<^verbatim>\<open>node.id\<close>, so
  \<^verbatim>\<open>service.node != node\<close> is the comparison of the two ids. A service object is referred
  to by its position in the array of the service catalog together with its identity, the
  triple (name, version, node id).

  A call that throws leaves the registry as it is at the throw, so the result of an
  operation that can throw is an outcome: the value returned or the error thrown, and the
  state of the registry at that moment.
\<close>

subsection \<open>Data\<close>

type_synonym node_id = string

text \<open>\<^verbatim>\<open>version?: String|Number\<close> of \<^verbatim>\<open>index.d.ts\<close>.\<close>

datatype version = VUndefined | VNum int | VStr string

datatype circuit_state = CLOSED | OPEN | HALF_OPEN

type_synonym service_key = "string \<times> version \<times> node_id"

type_synonym settings = "(string \<times> string) list"

text \<open>
  An action descriptor (\<^verbatim>\<open>interface Action\<close> of \<^verbatim>\<open>index.d.ts\<close>, and the
  \<^verbatim>\<open>protected\<close> flag that \<^verbatim>\<open>getActionList\<close> reads). A property that the object does
  not have is \<open>None\<close>; the handler is a function object, referred to by a number.
\<close>

record action =
  a_name :: string
  a_version :: version
  a_cache :: bool
  a_protected :: "bool option"
  a_handler :: "nat option"
  a_service :: "service_key option"

text \<open>
  A service descriptor as \<^verbatim>\<open>registerServices\<close> and \<^verbatim>\<open>registerLocalService\<close> receive it
  (\<^verbatim>\<open>svc\<close>): \<^verbatim>\<open>svc.actions\<close> is a plain object whose values are action descriptors,
  here the list of its own (key, value) pairs in enumeration order, or it is
  \<^verbatim>\<open>undefined\<close>, here \<open>None\<close>.
\<close>

record svc_schema =
  svc_name :: string
  svc_version :: version
  svc_settings :: settings
  svc_actions :: "(string \<times> action) list option"

text \<open>A service of the service catalog (\<^verbatim>\<open>service.node\<close>, \<^verbatim>\<open>service.name\<close>, ...).\<close>

record service_item =
  s_node :: node_id
  s_name :: string
  s_version :: version
  s_settings :: settings
  s_actions :: "(string \<times> action) list"

type_synonym service_ref = "nat \<times> service_key"

text \<open>An action endpoint: the triple (node, service, action descriptor) and its circuit state.\<close>

record endpoint =
  ep_node :: node_id
  ep_service :: service_key
  ep_action :: action
  ep_state :: circuit_state

record event_endpoint =
  ev_node :: node_id
  ev_service :: service_key
  ev_group :: "string option"

record node =
  n_available :: bool

text \<open>What the registry does to the broker and the logger, in the order it does it.\<close>

datatype effect =
    EmitLocal string node_id "bool option"
  | LoggerWarn string
  | LoggerInfo string
  | ServicesChanged bool

text \<open>
  The state of a \<^verbatim>\<open>Registry\<close>: \<^verbatim>\<open>this.nodes\<close> (with \<^verbatim>\<open>this.nodes.localNode\<close>),
  \<^verbatim>\<open>this.broker.nodeID\<close>, \<^verbatim>\<open>this.services.services\<close>, \<^verbatim>\<open>this.actions.actions\<close> (a
  keyed collection iterated as (entry, key) in insertion order), the event catalog, and
  the effects on broker and logger so far.
\<close>

record registry =
  nodes :: "(node_id \<times> node) list"
  localNode :: node_id
  broker_nodeID :: node_id
  services :: "service_item list"
  actions :: "(string \<times> endpoint list) list"
  events :: "(string \<times> event_endpoint list) list"
  effects :: "effect list"

text \<open>
  How a call ends: it returns a value, or it throws an error; in both cases the registry
  is left in a state.
\<close>

datatype error = TypeError

datatype 'a outcome = Return 'a registry | Throw error registry

fun state_of :: "'a outcome \<Rightarrow> registry" where
  "state_of (Return v st) = st"
| "state_of (Throw e st) = st"

fun value_of :: "'a outcome \<Rightarrow> 'a option" where
  "value_of (Return v st) = Some v"
| "value_of (Throw e st) = None"

subsection \<open>Broker and logger\<close>

text \<open>
  \<^verbatim>\<open>broker.emitLocal\<close>, \<^verbatim>\<open>logger.warn\<close>, \<^verbatim>\<open>logger.info\<close> and
  \<^verbatim>\<open>broker.servicesChanged\<close> belong to the broker and its logger; the registry only calls
  them, and the model records each call.
\<close>

definition broker_emitLocal :: "registry \<Rightarrow> string \<Rightarrow> node_id \<Rightarrow> bool option \<Rightarrow> registry" where
  "broker_emitLocal st ev nodeID flag = st\<lparr>effects := effects st @ [EmitLocal ev nodeID flag]\<rparr>"

definition logger_warn :: "registry \<Rightarrow> string \<Rightarrow> registry" where
  "logger_warn st msg = st\<lparr>effects := effects st @ [LoggerWarn msg]\<rparr>"

definition logger_info :: "registry \<Rightarrow> string \<Rightarrow> registry" where
  "logger_info st msg = st\<lparr>effects := effects st @ [LoggerInfo msg]\<rparr>"

definition broker_servicesChanged :: "registry \<Rightarrow> bool \<Rightarrow> registry" where
  "broker_servicesChanged st localService = st\<lparr>effects := effects st @ [ServicesChanged localService]\<rparr>"

subsection \<open>Node catalog\<close>

text \<open>
  Modelled from the spec: \<^verbatim>\<open>NodeCatalog.get\<close> (node-catalog.js is missing). The catalog
  "maps nodeId to Node".
\<close>

definition nodes_get :: "registry \<Rightarrow> node_id \<Rightarrow> node option" where
  "nodes_get st nodeID = map_of (nodes st) nodeID"

text \<open>
  Modelled from the spec: \<^verbatim>\<open>Node.disconnected\<close> (node-catalog.js is missing):
  "mark available=false".
\<close>

definition node_disconnected :: "registry \<Rightarrow> node_id \<Rightarrow> bool \<Rightarrow> registry" where
  "node_disconnected st nodeID isUnexpected =
     st\<lparr>nodes := AList.map_entry nodeID (\<lambda>n. n\<lparr>n_available := False\<rparr>) (nodes st)\<rparr>"

subsection \<open>Action catalog\<close>

text \<open>
  Modelled from the spec: \<^verbatim>\<open>ActionCatalog.get\<close> (action-catalog.js is missing):
  "returns the action entry (or nothing)".
\<close>

definition actions_get :: "registry \<Rightarrow> string \<Rightarrow> endpoint list option" where
  "actions_get st actionName = map_of (actions st) actionName"

text \<open>
  Modelled from the spec: the endpoint list of an action entry (action-catalog.js is
  missing). "For each action in the incoming descriptor, add/update an endpoint"; "at most
  one endpoint per nodeId per action name": the endpoint that the node has already is
  updated with the descriptor given and keeps its place, its owning service and its
  circuit state, and a node without an endpoint gets a new one, owned by the service given
  and CLOSED, at the end of the list.
\<close>

fun endpoints_add :: "endpoint list \<Rightarrow> node_id \<Rightarrow> service_key \<Rightarrow> action \<Rightarrow> endpoint list" where
  "endpoints_add [] node service action =
     [\<lparr>ep_node = node, ep_service = service, ep_action = action, ep_state = CLOSED\<rparr>]"
| "endpoints_add (ep # eps) node service action =
     (if ep_node ep = node then ep\<lparr>ep_action := action\<rparr> # eps
      else ep # endpoints_add eps node service action)"

text \<open>
  Modelled from the spec: \<^verbatim>\<open>ActionCatalog.add\<close> (action-catalog.js is missing): the
  entry of the action's name is created when there is none.
\<close>

definition actions_add :: "registry \<Rightarrow> node_id \<Rightarrow> service_key \<Rightarrow> action \<Rightarrow> registry" where
  "actions_add st node service action =
     (case map_of (actions st) (a_name action) of
        None \<Rightarrow> st\<lparr>actions := actions st @ [(a_name action, endpoints_add [] node service action)]\<rparr>
      | Some eps \<Rightarrow>
          st\<lparr>actions := AList.map_entry (a_name action)
                 (\<lambda>eps. endpoints_add eps node service action) (actions st)\<rparr>)"

text \<open>
  Modelled from the spec: \<^verbatim>\<open>ActionCatalog.remove\<close> (action-catalog.js is missing): the
  endpoint of the node leaves the entry of the action; the entry itself stays
  (\<^verbatim>\<open>getActionList\<close> copes with entries of count 0).
\<close>

definition actions_remove :: "registry \<Rightarrow> string \<Rightarrow> node_id \<Rightarrow> registry" where
  "actions_remove st actionName nodeID =
     st\<lparr>actions := AList.map_entry actionName
            (filter (\<lambda>ep. ep_node ep \<noteq> nodeID)) (actions st)\<rparr>"

text \<open>
  Modelled from the spec: the cascade from a service to its action endpoints
  (action-catalog.js is missing): "Endpoint lifecycle follows its owning service".
\<close>

definition actions_removeByService :: "registry \<Rightarrow> service_key \<Rightarrow> registry" where
  "actions_removeByService st service =
     st\<lparr>actions := map (\<lambda>(key, eps). (key, filter (\<lambda>ep. ep_service ep \<noteq> service) eps)) (actions st)\<rparr>"

text \<open>
  Modelled from the spec: the cascade from a service to its event subscriptions
  (event-catalog.js is missing): "trigger cascading unregistration of its
  services/actions/events".
\<close>

definition events_removeByService :: "registry \<Rightarrow> service_key \<Rightarrow> registry" where
  "events_removeByService st service =
     st\<lparr>events := map (\<lambda>(key, eps). (key, filter (\<lambda>ep. ev_service ep \<noteq> service) eps)) (events st)\<rparr>"

text \<open>
  Modelled from the spec: \<^verbatim>\<open>count\<close> of an action entry (action-catalog.js is missing):
  the number of its endpoints.
\<close>

definition entry_count :: "endpoint list \<Rightarrow> nat" where
  "entry_count eps = length eps"

text \<open>
  Modelled from the spec: \<^verbatim>\<open>hasLocal\<close> of an action entry (action-catalog.js is
  missing): "a local endpoint exists", a local endpoint being one of the local node.
\<close>

definition entry_hasLocal :: "registry \<Rightarrow> endpoint list \<Rightarrow> bool" where
  "entry_hasLocal st eps = list_ex (\<lambda>ep. ep_node ep = localNode st) eps"

text \<open>
  Modelled from the spec: the availability of an endpoint (action-catalog.js is missing):
  "an endpoint is available iff its node is available AND its circuit state is not OPEN".
  A node that the node catalog does not know counts as unavailable.
\<close>

definition endpoint_isAvailable :: "registry \<Rightarrow> endpoint \<Rightarrow> bool" where
  "endpoint_isAvailable st ep =
     ((case nodes_get st (ep_node ep) of None \<Rightarrow> False | Some n \<Rightarrow> n_available n)
      \<and> ep_state ep \<noteq> OPEN)"

text \<open>
  Modelled from the spec: \<^verbatim>\<open>hasAvailable\<close> of an action entry (action-catalog.js is
  missing): some endpoint of the entry is available.
\<close>

definition entry_hasAvailable :: "registry \<Rightarrow> endpoint list \<Rightarrow> bool" where
  "entry_hasAvailable st eps = list_ex (endpoint_isAvailable st) eps"

text \<open>
  Modelled from the spec: \<^verbatim>\<open>getEndpointByNodeID\<close> of an action entry (action-catalog.js
  is missing): "returns a specific endpoint", the one of the node, or nothing.
\<close>

definition entry_getEndpointByNodeID :: "endpoint list \<Rightarrow> node_id \<Rightarrow> endpoint option" where
  "entry_getEndpointByNodeID eps nodeID = find (\<lambda>ep. ep_node ep = nodeID) eps"

subsection \<open>Service catalog\<close>

text \<open>The identity of a service: "(name, version, nodeId)".\<close>

definition service_key_of :: "service_item \<Rightarrow> service_key" where
  "service_key_of s = (s_name s, s_version s, s_node s)"

text \<open>
  Modelled from the spec: \<^verbatim>\<open>ServiceItem.equals\<close> (service-catalog.js is missing): "two
  services are equal iff name and version match".
\<close>

definition service_equals :: "service_item \<Rightarrow> string \<Rightarrow> version \<Rightarrow> bool" where
  "service_equals s name' version' = (s_name s = name' \<and> s_version s = version')"

text \<open>
  The first element of an array that satisfies a test, with its index, and the update of
  the element at an index (the mutation of one object of the array).
\<close>

fun find_index :: "('a \<Rightarrow> bool) \<Rightarrow> 'a list \<Rightarrow> (nat \<times> 'a) option" where
  "find_index P [] = None"
| "find_index P (x # xs) =
     (if P x then Some (0, x)
      else (case find_index P xs of None \<Rightarrow> None | Some (i, y) \<Rightarrow> Some (Suc i, y)))"

fun modify_at :: "nat \<Rightarrow> ('a \<Rightarrow> 'a) \<Rightarrow> 'a list \<Rightarrow> 'a list" where
  "modify_at i f [] = []"
| "modify_at 0 f (x # xs) = f x # xs"
| "modify_at (Suc i) f (x # xs) = x # modify_at i f xs"

text \<open>
  Modelled from the spec: \<^verbatim>\<open>ServiceCatalog.get\<close> (service-catalog.js is missing): "find
  existing by (name, version, node)". The result is the service object: its place in the
  array and its present contents.
\<close>

definition services_get :: "registry \<Rightarrow> string \<Rightarrow> version \<Rightarrow> node_id \<Rightarrow> (nat \<times> service_item) option" where
  "services_get st name' version' nodeID =
     find_index (\<lambda>s. service_equals s name' version' \<and> s_node s = nodeID) (services st)"

text \<open>
  Modelled from the spec: \<^verbatim>\<open>ServiceCatalog.add\<close> (service-catalog.js is missing):
  "create if missing", where the caller has looked the service up before: a new service
  without actions is put at the end of the array.
\<close>

definition services_add :: "registry \<Rightarrow> node_id \<Rightarrow> string \<Rightarrow> version \<Rightarrow> settings \<Rightarrow> registry \<times> service_ref" where
  "services_add st node name' version' settings' =
     (st\<lparr>services := services st @
            [\<lparr>s_node = node, s_name = name', s_version = version',
              s_settings = settings', s_actions = []\<rparr>]\<rparr>,
      (length (services st), (name', version', node)))"

text \<open>
  Modelled from the spec: \<^verbatim>\<open>ServiceItem.update\<close> (service-catalog.js is missing): "else
  update settings".
\<close>

definition service_update :: "registry \<Rightarrow> service_ref \<Rightarrow> svc_schema \<Rightarrow> registry" where
  "service_update st service svc =
     st\<lparr>services := modify_at (fst service) (\<lambda>s. s\<lparr>s_settings := svc_settings svc\<rparr>) (services st)\<rparr>"

text \<open>
  Modelled from the spec: \<^verbatim>\<open>ServiceItem.addAction\<close> (service-catalog.js is missing): a
  service has a "map of actions by name".
\<close>

definition service_addAction :: "registry \<Rightarrow> service_ref \<Rightarrow> action \<Rightarrow> registry" where
  "service_addAction st service action =
     st\<lparr>services := modify_at (fst service)
            (\<lambda>s. s\<lparr>s_actions := AList.update (a_name action) action (s_actions s)\<rparr>) (services st)\<rparr>"

text \<open>
  Modelled from the spec: \<^verbatim>\<open>ServiceCatalog.remove\<close> (service-catalog.js is missing): the
  service of that identity leaves the catalog and "its actions are unregistered", as are
  its event subscriptions. The service leaves the array \<^verbatim>\<open>this.services.services\<close>
  itself, so the services behind it move one place to the front, also while
  \<^verbatim>\<open>registerServices\<close> walks that array.
\<close>

definition services_remove :: "registry \<Rightarrow> string \<Rightarrow> version \<Rightarrow> node_id \<Rightarrow> registry" where
  "services_remove st name' version' nodeID =
     (case services_get st name' version' nodeID of
        None \<Rightarrow> st
      | Some service \<Rightarrow>
          (let st1 = actions_removeByService st (name', version', nodeID);
               st2 = events_removeByService st1 (name', version', nodeID)
           in st2\<lparr>services :=
                   filter (\<lambda>s. \<not> (service_equals s name' version' \<and> s_node s = nodeID)) (services st2)\<rparr>))"

text \<open>
  Modelled from the spec: \<^verbatim>\<open>ServiceCatalog.removeAllByNodeID\<close> (service-catalog.js is
  missing): "trigger cascading unregistration of its services/actions/events": every
  service of the node is removed, each with its own cascade.
\<close>

definition services_removeAllByNodeID :: "registry \<Rightarrow> node_id \<Rightarrow> registry" where
  "services_removeAllByNodeID st nodeID =
     fold (\<lambda>s st. services_remove st (s_name s) (s_version s) nodeID)
       (filter (\<lambda>s. s_node s = nodeID) (services st)) st"

subsection \<open>The operations of \<^verbatim>\<open>Registry\<close>\<close>

text \<open>\<^verbatim>\<open>unregisterAction(node, name)\<close>.\<close>

definition unregisterAction :: "registry \<Rightarrow> node_id \<Rightarrow> string \<Rightarrow> registry" where
  "unregisterAction st node name' = actions_remove st name' node"

text \<open>
  \<^verbatim>\<open>unregisterService(name, version, nodeID)\<close>: \<^verbatim>\<open>nodeID || this.broker.nodeID\<close>. The
  argument is \<open>None\<close> when the caller leaves it out; the empty string is falsy as well.
\<close>

definition unregisterService :: "registry \<Rightarrow> string \<Rightarrow> version \<Rightarrow> node_id option \<Rightarrow> registry" where
  "unregisterService st name' version' nodeID =
     services_remove st name' version'
       (case nodeID of None \<Rightarrow> broker_nodeID st
        | Some n \<Rightarrow> if n = [] then broker_nodeID st else n)"

text \<open>\<^verbatim>\<open>unregisterServicesByNode(nodeID)\<close>.\<close>

definition unregisterServicesByNode :: "registry \<Rightarrow> node_id \<Rightarrow> registry" where
  "unregisterServicesByNode st nodeID = services_removeAllByNodeID st nodeID"

text \<open>
  \<^verbatim>\<open>registerActions(node, service, actions)\<close>: \<^verbatim>\<open>_.forIn\<close> over the values of the
  object, each added to the action catalog and to the service; \<^verbatim>\<open>_.forIn\<close> does nothing
  for \<^verbatim>\<open>undefined\<close>.
\<close>

definition registerActions :: "registry \<Rightarrow> node_id \<Rightarrow> service_ref \<Rightarrow> (string \<times> action) list option \<Rightarrow> registry" where
  "registerActions st node service acts =
     fold (\<lambda>(key, action) st.
             service_addAction (actions_add st node (snd service) action) service action)
       (case acts of None \<Rightarrow> [] | Some pairs \<Rightarrow> pairs) st"

text \<open>\<^verbatim>\<open>registerLocalService(svc)\<close>.\<close>

definition registerLocalService :: "registry \<Rightarrow> svc_schema \<Rightarrow> registry" where
  "registerLocalService st svc =
     (let (st1, service) =
            services_add st (localNode st) (svc_name svc) (svc_version svc) (svc_settings svc);
          st2 = registerActions st1 (localNode st) service (svc_actions svc)
      in logger_info st2 ([CHR 0x27] @ fst (snd service) @ [CHR 0x27] @ '' service is registered!''))"

text \<open>
  The names of the properties that every plain object inherits from
  \<^verbatim>\<open>Object.prototype\<close>, and the test \<^verbatim>\<open>svc.actions[name]\<close> of a condition: the
  property is looked up in the object and then in its prototype, and what is found there
  (an action descriptor, a function of the prototype, the prototype itself) is truthy.
\<close>

definition object_prototype_names :: "string list" where
  "object_prototype_names =
     [''constructor'', ''__defineGetter__'', ''__defineSetter__'', ''hasOwnProperty'',
      ''__lookupGetter__'', ''__lookupSetter__'', ''isPrototypeOf'', ''propertyIsEnumerable'',
      ''toString'', ''valueOf'', ''__proto__'', ''toLocaleString'']"

definition truthy_property :: "(string \<times> action) list \<Rightarrow> string \<Rightarrow> bool" where
  "truthy_property obj name' =
     (map_of obj name' \<noteq> None \<or> name' \<in> set object_prototype_names)"

text \<open>
  The body of the first \<^verbatim>\<open>forEach\<close> of \<^verbatim>\<open>registerServices\<close>, for one \<^verbatim>\<open>svc\<close>.
  \<^verbatim>\<open>Object.assign({}, service.actions)\<close> is an object, hence truthy, so the loop over
  \<^verbatim>\<open>prevActions\<close> runs whenever the service was found; its first round reads
  \<^verbatim>\<open>svc.actions[name]\<close>, which throws a \<^verbatim>\<open>TypeError\<close> when \<^verbatim>\<open>svc.actions\<close> is
  \<^verbatim>\<open>undefined\<close>.
\<close>

definition registerServices_each :: "node_id \<Rightarrow> svc_schema \<Rightarrow> registry \<Rightarrow> unit outcome" where
  "registerServices_each node svc st =
     (case services_get st (svc_name svc) (svc_version svc) node of
        None \<Rightarrow>
          (let (st1, service) =
                 services_add st node (svc_name svc) (svc_version svc) (svc_settings svc)
           in Return () (registerActions st1 node service (svc_actions svc)))
      | Some (i, item) \<Rightarrow>
          (let prevActions = s_actions item;
               service = (i, service_key_of item);
               st1 = service_update st service svc;
               st2 = registerActions st1 node service (svc_actions svc)
           in (case svc_actions svc of
                 None \<Rightarrow> if prevActions = [] then Return () st2 else Throw TypeError st2
               | Some acts \<Rightarrow>
                   Return ()
                     (fold (\<lambda>(name', action) st.
                              if \<not> truthy_property acts name'
                              then unregisterAction st node name' else st)
                        prevActions st2))))"

text \<open>The first \<^verbatim>\<open>forEach\<close> of \<^verbatim>\<open>registerServices\<close>: a throw ends the loop.\<close>

fun serviceList_forEach :: "node_id \<Rightarrow> svc_schema list \<Rightarrow> registry \<Rightarrow> unit outcome" where
  "serviceList_forEach node [] st = Return () st"
| "serviceList_forEach node (svc # rest) st =
     (case registerServices_each node svc st of
        Return u st' \<Rightarrow> serviceList_forEach node rest st'
      | Throw e st' \<Rightarrow> Throw e st')"

text \<open>
  The body of the second \<^verbatim>\<open>forEach\<close> of \<^verbatim>\<open>registerServices\<close>, for one stored
  service.
\<close>

definition registerServices_cleanup :: "node_id \<Rightarrow> svc_schema list \<Rightarrow> service_item \<Rightarrow> registry \<Rightarrow> registry" where
  "registerServices_cleanup node serviceList service st =
     (if s_node service \<noteq> node then st
      else if list_ex (\<lambda>svc. service_equals service (svc_name svc) (svc_version svc)) serviceList
      then st
      else unregisterService st (s_name service) (s_version service) (Some node))"

text \<open>
  \<^verbatim>\<open>this.services.services.forEach(callback)\<close>. \<^verbatim>\<open>Array.prototype.forEach\<close> reads the
  length of the array once, before the first round, and then visits the indices from 0 up
  to that length in the array as it is at that moment: when the callback has taken
  elements out, the elements behind them have moved to the front, and an index that the
  array does not have any more is passed over. \<open>k\<close> is the index of the round and
  \<open>len\<close> the length read at the start.
\<close>

function services_forEach :: "nat \<Rightarrow> nat \<Rightarrow> (service_item \<Rightarrow> registry \<Rightarrow> registry) \<Rightarrow> registry \<Rightarrow> registry" where
  "services_forEach k len callback st =
     (if k < len
      then services_forEach (Suc k) len callback
             (if k < length (services st) then callback (services st ! k) st else st)
      else st)"
  by pat_completeness auto

termination services_forEach
  by (relation "measure (\<lambda>(k, len, callback, st). len - k)") auto

declare services_forEach.simps [simp del]

text \<open>\<^verbatim>\<open>registerServices(node, serviceList)\<close>.\<close>

definition registerServices :: "registry \<Rightarrow> node_id \<Rightarrow> svc_schema list \<Rightarrow> unit outcome" where
  "registerServices st node serviceList =
     (case serviceList_forEach node serviceList st of
        Throw e st1 \<Rightarrow> Throw e st1
      | Return u st1 \<Rightarrow>
          Return ()
            (services_forEach 0 (length (services st1))
               (registerServices_cleanup node serviceList) st1))"

text \<open>
  \<^verbatim>\<open>nodeDisconnected(nodeID, isUnexpected)\<close>. \<^verbatim>\<open>!!isUnexpected\<close> of a boolean is the
  boolean.
\<close>

definition nodeDisconnected :: "registry \<Rightarrow> node_id \<Rightarrow> bool \<Rightarrow> registry" where
  "nodeDisconnected st nodeID isUnexpected =
     (case nodes_get st nodeID of
        None \<Rightarrow> st
      | Some node \<Rightarrow>
          if n_available node then
            (let st1 = node_disconnected st nodeID isUnexpected;
                 st2 = unregisterServicesByNode st1 nodeID;
                 st3 = broker_emitLocal st2 ''$node.disconnected'' nodeID (Some isUnexpected);
                 st4 = logger_warn st3 (''Node '' @ [CHR 0x27] @ nodeID @ [CHR 0x27] @ '' disconnected!'')
             in broker_servicesChanged st4 False)
          else st)"

text \<open>\<^verbatim>\<open>getActionEndpoints(actionName)\<close>.\<close>

definition getActionEndpoints :: "registry \<Rightarrow> string \<Rightarrow> endpoint list option" where
  "getActionEndpoints st actionName = actions_get st actionName"

text \<open>
  \<^verbatim>\<open>getActionEndpointByNodeId(actionName, nodeID)\<close>; \<open>None\<close> is \<^verbatim>\<open>undefined\<close>, which
  the function returns when it falls off its end.
\<close>

definition getActionEndpointByNodeId :: "registry \<Rightarrow> string \<Rightarrow> node_id \<Rightarrow> endpoint option" where
  "getActionEndpointByNodeId st actionName nodeID =
     (case actions_get st actionName of
        None \<Rightarrow> None
      | Some list \<Rightarrow> entry_getEndpointByNodeID list nodeID)"

text \<open>
  \<^verbatim>\<open>getActionList({onlyLocal, skipInternal, withEndpoints})\<close>. An item of the result;
  \<^verbatim>\<open>item.action\<close> and \<^verbatim>\<open>item.endpoints\<close> are \<open>None\<close> while the item does not have
  them.
\<close>

record action_item =
  i_name :: string
  i_count :: nat
  i_hasLocal :: bool
  i_available :: bool
  i_action :: "action option"
  i_endpoints :: "(node_id \<times> circuit_state) list option"

record list_opts =
  onlyLocal :: bool
  skipInternal :: bool
  withEndpoints :: bool

text \<open>\<^verbatim>\<open>_.omit(ep.action, ["handler", "service"])\<close>: a copy without the two properties.\<close>

definition omit_handler_service :: "action \<Rightarrow> action" where
  "omit_handler_service a = a\<lparr>a_handler := None, a_service := None\<rparr>"

text \<open>
  The body of the \<^verbatim>\<open>forEach\<close> of \<^verbatim>\<open>getActionList\<close>, for one (key, entry);
  \<^verbatim>\<open>/^\$node/.test(key)\<close> holds when the key starts with \<^verbatim>\<open>$node\<close>, and
  \<^verbatim>\<open>entry.endpoints[0]\<close> is \<^verbatim>\<open>undefined\<close> for an empty array.
\<close>

definition getActionList_each :: "registry \<Rightarrow> list_opts \<Rightarrow> string \<times> endpoint list \<Rightarrow> action_item list \<Rightarrow> action_item list" where
  "getActionList_each st opts kv res =
     (let key = fst kv; entry = snd kv in
      if skipInternal opts \<and> prefix ''$node'' key then res
      else if onlyLocal opts \<and> \<not> entry_hasLocal st entry then res
      else
        (let item0 = \<lparr>i_name = key, i_count = entry_count entry,
                      i_hasLocal = entry_hasLocal st entry,
                      i_available = entry_hasAvailable st entry,
                      i_action = None, i_endpoints = None\<rparr>;
             item1 = (if i_count item0 > 0
                      then (case entry of
                              [] \<Rightarrow> item0
                            | ep # _ \<Rightarrow> item0\<lparr>i_action := Some (omit_handler_service (ep_action ep))\<rparr>)
                      else item0)
         in (case i_action item1 of
               None \<Rightarrow> res
             | Some a \<Rightarrow>
                 if a_protected a = Some True then res
                 else
                   (let item2 = (if withEndpoints opts
                                 then (if i_count item1 > 0
                                       then item1\<lparr>i_endpoints :=
                                              Some (map (\<lambda>ep. (ep_node ep, ep_state ep)) entry)\<rparr>
                                       else item1)
                                 else item1)
                    in res @ [item2]))))"

definition getActionList :: "registry \<Rightarrow> list_opts \<Rightarrow> action_item list" where
  "getActionList st opts = fold (getActionList_each st opts) (actions st) []"

text \<open>The payload of an INFO packet, as far as the registry reads it.\<close>

record info_payload =
  p_sender :: node_id
  p_services :: "svc_schema list"

text \<open>
  Modelled from the spec: \<^verbatim>\<open>NodeCatalog.processNodeInfo\<close> (node-catalog.js is missing):
  "upsert a node; on transition unavailable to available, emit $node.connected; replace
  the node's service list via the Service Catalog; return whether the node is new".
\<close>

definition nodes_processNodeInfo :: "registry \<Rightarrow> info_payload \<Rightarrow> bool outcome" where
  "nodes_processNodeInfo st payload =
     (let nodeID = p_sender payload;
          isNew = (nodes_get st nodeID = None);
          wasAvailable = (case nodes_get st nodeID of None \<Rightarrow> False | Some n \<Rightarrow> n_available n);
          st1 = st\<lparr>nodes := AList.update nodeID \<lparr>n_available = True\<rparr> (nodes st)\<rparr>;
          st2 = (if wasAvailable then st1
                 else broker_emitLocal st1 ''$node.connected'' nodeID None)
      in (case registerServices st2 nodeID (p_services payload) of
            Throw e st3 \<Rightarrow> Throw e st3
          | Return u st3 \<Rightarrow> Return isNew st3))"

text \<open>
  \<^verbatim>\<open>processNodeInfo(payload)\<close> of \<^verbatim>\<open>Registry\<close>: the body is the one statement
  \<^verbatim>\<open>this.nodes.processNodeInfo(payload);\<close> without \<^verbatim>\<open>return\<close>. The operation of the
  node catalog is the parameter \<open>nodes_process\<close>, with a result of any type; a value of
  \<^verbatim>\<open>Registry.processNodeInfo\<close> that tells whether the node is new would be \<open>Some\<close> of
  a boolean, and \<open>None\<close> is \<^verbatim>\<open>undefined\<close>.
\<close>

definition processNodeInfo :: "(registry \<Rightarrow> info_payload \<Rightarrow> 'v outcome) \<Rightarrow> registry \<Rightarrow> info_payload \<Rightarrow> bool option outcome" where
  "processNodeInfo nodes_process st payload =
     (case nodes_process st payload of
        Throw e st' \<Rightarrow> Throw e st'
      | Return v st' \<Rightarrow> Return None st')"

subsection \<open>Example data\<close>

definition emptyRegistry :: registry where
  "emptyRegistry =
     \<lparr>nodes = [(''local'', \<lparr>n_available = True\<rparr>)], localNode = ''local'',
      broker_nodeID = ''local'', services = [], actions = [], events = [], effects = []\<rparr>"

definition mkAction :: "string \<Rightarrow> action" where
  "mkAction n = \<lparr>a_name = n, a_version = VUndefined, a_cache = False,
                 a_protected = None, a_handler = None, a_service = None\<rparr>"

definition mkService :: "string \<Rightarrow> string list \<Rightarrow> svc_schema" where
  "mkService n acts = \<lparr>svc_name = n, svc_version = VUndefined, svc_settings = [],
                        svc_actions = Some (map (\<lambda>a. (a, mkAction a)) acts)\<rparr>"

definition exampleInfo :: info_payload where
  "exampleInfo = \<lparr>p_sender = ''A'', p_services = [mkService ''math'' [''math.add'']]\<rparr>"

definition exampleRegistry :: registry where
  "exampleRegistry = state_of (processNodeInfo nodes_processNodeInfo emptyRegistry exampleInfo)"

definition exampleLocal :: registry where
  "exampleLocal =
     registerLocalService
       (registerLocalService exampleRegistry (mkService ''$node'' [''$node.list'']))
       (mkService ''math'' [''math.add''])"

definition exampleDisconnected :: registry where
  "exampleDisconnected = nodeDisconnected exampleRegistry ''A'' True"

definition exampleOpts :: list_opts where
  "exampleOpts = \<lparr>onlyLocal = True, skipInternal = True, withEndpoints = True\<rparr>"

definition exampleTwo :: registry where
  "exampleTwo =
     state_of (registerServices emptyRegistry ''A'' [mkService ''math'' [''math.add'', ''math.sub'']])"

definition exampleItem :: service_item where
  "exampleItem = \<lparr>s_node = ''A'', s_name = ''math'', s_version = VUndefined, s_settings = [],
     s_actions = [(''math.add'', mkAction ''math.add''), (''math.sub'', mkAction ''math.sub'')]\<rparr>"

definition exampleOffered :: "svc_schema list" where
  "exampleOffered = [mkService ''math'' [''math.add''], mkService ''other'' [''math.sub'']]"

definition exampleInherited :: registry where
  "exampleInherited =
     state_of (registerServices emptyRegistry ''A'' [mkService ''obj'' [''obj.x'', ''toString'']])"

definition exampleStale :: registry where
  "exampleStale =
     state_of (registerServices emptyRegistry ''A''
       [mkService ''x1'' [''x1.a''], mkService ''x2'' [''x2.a''], mkService ''x3'' [''x3.a'']])"

definition exampleListed :: registry where
  "exampleListed = state_of (registerServices exampleStale ''A'' [mkService ''s'' [''s.a'']])"

definition exampleReconciled :: registry where
  "exampleReconciled = state_of (registerServices exampleListed ''A'' [])"

definition exampleAnnounced :: registry where
  "exampleAnnounced =
     state_of (registerServices emptyRegistry ''A''
       [mkService ''x1'' [''x1.a''], mkService ''x2'' [''x2.a'']])"

definition exampleOnce :: registry where
  "exampleOnce = state_of (registerServices exampleAnnounced ''A'' [])"

definition exampleNoId :: registry where
  "exampleNoId =
     state_of (registerServices
       (state_of (registerServices emptyRegistry [] [mkService ''math'' [''math.add'']])) [] [])"

definition exampleTwice :: registry where
  "exampleTwice =
     registerLocalService (registerLocalService emptyRegistry (mkService ''math'' [''math.add'']))
       (mkService ''math'' [''math.add''])"

subsection \<open>Invariants of the catalogs\<close>

text \<open>At most one endpoint per node in every action entry.\<close>

definition unique_endpoints :: "registry \<Rightarrow> bool" where
  "unique_endpoints st = list_all (\<lambda>kv. distinct (map ep_node (snd kv))) (actions st)"

text \<open>
  Every endpoint belongs to a service of the catalog, and that service is one of the
  endpoint's node.
\<close>

definition owned_endpoints :: "registry \<Rightarrow> bool" where
  "owned_endpoints st =
     (list_all (\<lambda>kv. list_all (\<lambda>ep. ep_service ep \<in> set (map service_key_of (services st)) \<and>
                                     snd (snd (ep_service ep)) = ep_node ep) (snd kv)) (actions st) \<and>
      list_all (\<lambda>kv. list_all (\<lambda>ep. ev_service ep \<in> set (map service_key_of (services st)) \<and>
                                     snd (snd (ev_service ep)) = ev_node ep) (snd kv)) (events st))"

definition wf_registry :: "registry \<Rightarrow> bool" where
  "wf_registry st = (distinct (map fst (actions st)) \<and> unique_endpoints st \<and> owned_endpoints st)"

text \<open>
  The states of a registry: the constructor makes the catalogs empty, and the operations
  of \<^verbatim>\<open>Registry\<close> go on from there, also from the state that a call leaves when it
  throws.
\<close>

inductive reachable :: "registry \<Rightarrow> bool" where
  reachable_new: "services st = [] \<Longrightarrow> actions st = [] \<Longrightarrow> events st = [] \<Longrightarrow> reachable st"
| reachable_registerLocalService: "reachable st \<Longrightarrow> reachable (registerLocalService st svc)"
| reachable_registerServices:
    "reachable st \<Longrightarrow> reachable (state_of (registerServices st node serviceList))"
| reachable_nodeDisconnected: "reachable st \<Longrightarrow> reachable (nodeDisconnected st nodeID isUnexpected)"
| reachable_unregisterService: "reachable st \<Longrightarrow> reachable (unregisterService st name' version' nodeID)"
| reachable_unregisterAction: "reachable st \<Longrightarrow> reachable (unregisterAction st node name')"
| reachable_processNodeInfo:
    "reachable st \<Longrightarrow> reachable (state_of (processNodeInfo nodes_processNodeInfo st payload))"

text \<open>What one entry of the action catalog contributes to the result of \<^verbatim>\<open>getActionList\<close>.\<close>

definition listed :: "registry \<Rightarrow> list_opts \<Rightarrow> string \<times> endpoint list \<Rightarrow> action_item \<Rightarrow> bool" where
  "listed st opts kv item =
     (\<exists>ep rest. snd kv = ep # rest \<and> i_name item = fst kv \<and>
        i_action item = Some (omit_handler_service (ep_action ep)) \<and>
        a_protected (ep_action ep) \<noteq> Some True \<and>
        (skipInternal opts \<longrightarrow> \<not> prefix ''$node'' (fst kv)) \<and>
        (onlyLocal opts \<longrightarrow> entry_hasLocal st (snd kv)) \<and>
        i_hasLocal item = entry_hasLocal st (snd kv))"

subsection \<open>Notions for the proofs\<close>

text \<open>
  The service (name, version) of node \<open>n\<close> is found in the catalog, at place \<open>i\<close>,
  with an action of name \<open>a\<close> among its stored actions.
\<close>

definition has_stored :: "registry \<Rightarrow> string \<Rightarrow> version \<Rightarrow> node_id \<Rightarrow> nat \<Rightarrow> string \<Rightarrow> bool" where
  "has_stored st nm v n i a =
     (\<exists>item. services_get st nm v n = Some (i, item) \<and> a \<in> set (map fst (s_actions item)))"

section \<open>Properties\<close>

subsection \<open>Lookup of an endpoint\<close>

lemma find_Some_set: "find P xs = Some x \<Longrightarrow> x \<in> set xs \<and> P x"
  by (induction xs) (auto split: if_splits)

lemma find_Some_ex: "x \<in> set xs \<Longrightarrow> P x \<Longrightarrow> \<exists>y. find P xs = Some y"
  by (induction xs) auto

text \<open>
  Claim C9. For an action name without an entry in the action catalog,
  \<^verbatim>\<open>getActionEndpointByNodeId\<close> returns nothing, for every node id (the model has no
  error path: the guard \<^verbatim>\<open>if (list)\<close> keeps the lookup from a missing entry). It returns
  an endpoint exactly when the entry exists and has an endpoint of that node, and the
  endpoint returned is one of the entry with that node id.
\<close>

theorem getActionEndpointByNodeId_defined:
  "(getActionEndpoints st a = None \<longrightarrow> getActionEndpointByNodeId st a nodeID = None) \<and>
   ((getActionEndpointByNodeId st a nodeID \<noteq> None) =
      (\<exists>list. getActionEndpoints st a = Some list \<and> (\<exists>ep \<in> set list. ep_node ep = nodeID))) \<and>
   (\<forall>ep. getActionEndpointByNodeId st a nodeID = Some ep \<longrightarrow>
      ep_node ep = nodeID \<and> (\<exists>list. getActionEndpoints st a = Some list \<and> ep \<in> set list))"
  by (auto simp: getActionEndpoints_def getActionEndpointByNodeId_def entry_getEndpointByNodeID_def
      dest: find_Some_set find_Some_ex split: option.splits)

theorem getActionEndpointByNodeId_defined_witness:
  "getActionEndpoints emptyRegistry ''math.add'' = None \<and>
   getActionEndpointByNodeId emptyRegistry ''math.add'' ''A'' = None \<and>
   getActionEndpointByNodeId exampleRegistry ''math.add'' ''A'' \<noteq> None \<and>
   (\<exists>ep. getActionEndpointByNodeId exampleRegistry ''math.add'' ''A'' = Some ep \<and> ep_node ep = ''A'')"
proof -
  have 1: "getActionEndpoints emptyRegistry ''math.add'' = None" by code_simp
  have 2: "getActionEndpointByNodeId exampleRegistry ''math.add'' ''A'' \<noteq> None" by code_simp
  from 1 2 getActionEndpointByNodeId_defined[of emptyRegistry "''math.add''" "''A''"]
    getActionEndpointByNodeId_defined[of exampleRegistry "''math.add''" "''A''"]
  show ?thesis by auto
qed

subsection \<open>Disconnecting a node that is unknown or unavailable\<close>

lemma nodes_services_remove [simp]: "nodes (services_remove st n v i) = nodes st"
  by (simp add: services_remove_def actions_removeByService_def events_removeByService_def Let_def
      split: option.splits)

lemma nodes_fold_services_remove [simp]:
  "nodes (fold (\<lambda>s st. services_remove st (f s) (g s) i) xs st) = nodes st"
  by (induction xs arbitrary: st) auto

lemma nodes_unregisterServicesByNode [simp]: "nodes (unregisterServicesByNode st i) = nodes st"
  by (simp add: unregisterServicesByNode_def services_removeAllByNodeID_def)

text \<open>
  Claim C8. When the node id is unknown to the node catalog, or the node is already
  marked unavailable, \<^verbatim>\<open>nodeDisconnected\<close> leaves the whole registry state as it is, the
  effects on the broker included, so no \<^verbatim>\<open>$node.disconnected\<close> is emitted. Hence a second
  \<^verbatim>\<open>nodeDisconnected\<close> for the same node changes nothing after the first.
\<close>

theorem nodeDisconnected_unknown_or_unavailable:
  "(nodes_get st n = None \<or> (\<exists>nd. nodes_get st n = Some nd \<and> \<not> n_available nd)
      \<longrightarrow> nodeDisconnected st n u = st) \<and>
   nodeDisconnected (nodeDisconnected st n u) n u' = nodeDisconnected st n u"
proof -
  have noop: "nodeDisconnected s n w = s"
    if "nodes_get s n = None \<or> (\<exists>nd. nodes_get s n = Some nd \<and> \<not> n_available nd)" for s w
    using that by (auto simp: nodeDisconnected_def)
  have after: "nodes_get (nodeDisconnected st n u) n = None \<or>
        (\<exists>nd. nodes_get (nodeDisconnected st n u) n = Some nd \<and> \<not> n_available nd)"
    by (auto simp: nodeDisconnected_def nodes_get_def node_disconnected_def Let_def
        broker_emitLocal_def logger_warn_def broker_servicesChanged_def map_of_map_entry
        split: option.splits)
  show ?thesis using noop after by blast
qed

theorem nodeDisconnected_unknown_or_unavailable_witness:
  "nodes_get exampleRegistry ''ghost'' = None \<and>
   nodeDisconnected exampleRegistry ''ghost'' True = exampleRegistry \<and>
   nodes_get (nodeDisconnected exampleRegistry ''A'' True) ''A'' = Some \<lparr>n_available = False\<rparr> \<and>
   nodeDisconnected (nodeDisconnected exampleRegistry ''A'' True) ''A'' False =
     nodeDisconnected exampleRegistry ''A'' True"
proof -
  have 1: "nodes_get exampleRegistry ''ghost'' = None" by code_simp
  have 2: "nodes_get (nodeDisconnected exampleRegistry ''A'' True) ''A'' = Some \<lparr>n_available = False\<rparr>"
    by code_simp
  from 1 2 nodeDisconnected_unknown_or_unavailable[of exampleRegistry "''ghost''" True]
    nodeDisconnected_unknown_or_unavailable[of "nodeDisconnected exampleRegistry ''A'' True" "''A''" False]
  show ?thesis by auto
qed

subsection \<open>The value of \<^verbatim>\<open>processNodeInfo\<close>\<close>

text \<open>
  Claim C4, as the code has it. Whatever the operation of the node catalog does and
  returns, \<^verbatim>\<open>processNodeInfo\<close> of \<^verbatim>\<open>Registry\<close> never returns a boolean: it returns
  exactly when that operation returns, its value is then \<^verbatim>\<open>undefined\<close>, and the
  registry is as that operation left it. So the value is the same for a node that is new
  and for a node that is known.
\<close>

theorem processNodeInfo_returns_undefined:
  "value_of (processNodeInfo nodes_process st p) \<noteq> Some (Some b) \<and>
   (value_of (processNodeInfo nodes_process st p) = Some None) =
     (value_of (nodes_process st p) \<noteq> None) \<and>
   (value_of (processNodeInfo nodes_process st p) = None) =
     (value_of (nodes_process st p) = None) \<and>
   state_of (processNodeInfo nodes_process st p) = state_of (nodes_process st p)"
proof (cases "nodes_process st p")
  case (Return v st')
  then have "processNodeInfo nodes_process st p = Return None st'"
    by (simp add: processNodeInfo_def)
  with Return show ?thesis by simp
next
  case (Throw e st')
  then have "processNodeInfo nodes_process st p = Throw e st'"
    by (simp add: processNodeInfo_def)
  with Throw show ?thesis by simp
qed

text \<open>
  Claim C4, as stated, fails: node \<^verbatim>\<open>A\<close> is new to the empty registry and known to
  the registry that has had its INFO packet, and \<^verbatim>\<open>processNodeInfo\<close> returns
  \<^verbatim>\<open>undefined\<close> both times.
\<close>

theorem processNodeInfo_counterexample:
  "nodes_get emptyRegistry (p_sender exampleInfo) = None \<and>
   nodes_get exampleRegistry (p_sender exampleInfo) = Some \<lparr>n_available = True\<rparr> \<and>
   value_of (processNodeInfo nodes_processNodeInfo emptyRegistry exampleInfo) = Some None \<and>
   value_of (processNodeInfo nodes_processNodeInfo exampleRegistry exampleInfo) = Some None"
  by code_simp

subsection \<open>The list of actions\<close>

lemma getActionList_each_cases:
  "getActionList_each st opts kv res = res \<or>
   (\<exists>item. getActionList_each st opts kv res = res @ [item] \<and> listed st opts kv item)"
  by (cases "snd kv")
     (auto simp: getActionList_each_def listed_def Let_def entry_count_def omit_handler_service_def)

lemma getActionList_fold:
  "item \<in> set (fold (getActionList_each st opts) xs res) \<Longrightarrow>
   item \<in> set res \<or> (\<exists>kv \<in> set xs. listed st opts kv item)"
proof (induction xs arbitrary: res)
  case Nil
  then show ?case by simp
next
  case (Cons kv xs)
  from Cons.prems
  have "item \<in> set (fold (getActionList_each st opts) xs (getActionList_each st opts kv res))"
    by simp
  from Cons.IH[OF this] getActionList_each_cases[of st opts kv res]
  show ?case by auto
qed

lemma getActionList_listed:
  "item \<in> set (getActionList st opts) \<Longrightarrow> \<exists>kv \<in> set (actions st). listed st opts kv item"
  using getActionList_fold[of item st opts "actions st" "[]"] by (simp add: getActionList_def)

text \<open>
  Claim C5. For every registry state and every item that \<^verbatim>\<open>getActionList\<close> returns:
  with \<^verbatim>\<open>skipInternal\<close> the name of the item does not start with \<^verbatim>\<open>$node\<close> (so not
  with \<^verbatim>\<open>$node.\<close> either); with \<^verbatim>\<open>onlyLocal\<close> the entry of that name answers
  \<^verbatim>\<open>hasLocal()\<close> with true, that is, has an endpoint of the local node; and under every combination of the options the action descriptor of the
  item does not have \<^verbatim>\<open>protected === true\<close>.
\<close>

theorem getActionList_filters:
  "\<forall>item \<in> set (getActionList st opts).
     (skipInternal opts \<longrightarrow> \<not> prefix ''$node'' (i_name item) \<and> \<not> prefix ''$node.'' (i_name item)) \<and>
     (onlyLocal opts \<longrightarrow> i_hasLocal item \<and>
        (\<exists>entry. (i_name item, entry) \<in> set (actions st) \<and> entry_hasLocal st entry \<and>
                 (\<exists>ep \<in> set entry. ep_node ep = localNode st))) \<and>
     (\<forall>a. i_action item = Some a \<longrightarrow> a_protected a \<noteq> Some True)"
proof
  fix item assume "item \<in> set (getActionList st opts)"
  then obtain kv where kv: "kv \<in> set (actions st)" and l: "listed st opts kv item"
    using getActionList_listed by blast
  have p: "prefix ''$node.'' k \<Longrightarrow> prefix ''$node'' k" for k :: string
    by (auto simp: prefix_def)
  from l have "skipInternal opts \<longrightarrow>
      \<not> prefix ''$node'' (i_name item) \<and> \<not> prefix ''$node.'' (i_name item)"
    using p by (auto simp: listed_def)
  moreover have "onlyLocal opts \<longrightarrow> i_hasLocal item \<and>
        (\<exists>entry. (i_name item, entry) \<in> set (actions st) \<and> entry_hasLocal st entry \<and>
                 (\<exists>ep \<in> set entry. ep_node ep = localNode st))"
  proof -
    obtain k e where kv': "kv = (k, e)" by (cases kv)
    from l kv kv' show ?thesis
      by (auto simp: listed_def entry_hasLocal_def list_ex_iff)
  qed
  moreover from l have "\<forall>a. i_action item = Some a \<longrightarrow> a_protected a \<noteq> Some True"
    by (auto simp: listed_def omit_handler_service_def)
  ultimately show "(skipInternal opts \<longrightarrow>
         \<not> prefix ''$node'' (i_name item) \<and> \<not> prefix ''$node.'' (i_name item)) \<and>
     (onlyLocal opts \<longrightarrow> i_hasLocal item \<and>
        (\<exists>entry. (i_name item, entry) \<in> set (actions st) \<and> entry_hasLocal st entry \<and>
                 (\<exists>ep \<in> set entry. ep_node ep = localNode st))) \<and>
     (\<forall>a. i_action item = Some a \<longrightarrow> a_protected a \<noteq> Some True)" by blast
qed

theorem getActionList_filters_witness:
  "map i_name (getActionList exampleLocal exampleOpts) = [''math.add''] \<and>
   map fst (actions exampleLocal) = [''math.add'', ''$node.list''] \<and>
   skipInternal exampleOpts \<and> onlyLocal exampleOpts \<and>
   \<not> prefix ''$node'' (i_name (hd (getActionList exampleLocal exampleOpts))) \<and>
   i_hasLocal (hd (getActionList exampleLocal exampleOpts)) \<and>
   (\<exists>entry. (i_name (hd (getActionList exampleLocal exampleOpts)), entry) \<in> set (actions exampleLocal) \<and>
            (\<exists>ep \<in> set entry. ep_node ep = localNode exampleLocal)) \<and>
   (\<exists>a. i_action (hd (getActionList exampleLocal exampleOpts)) = Some a \<and> a_protected a \<noteq> Some True)"
proof -
  have 1: "map i_name (getActionList exampleLocal exampleOpts) = [''math.add'']" by code_simp
  have 2: "map fst (actions exampleLocal) = [''math.add'', ''$node.list'']" by code_simp
  have 3: "skipInternal exampleOpts \<and> onlyLocal exampleOpts" by code_simp
  have 4: "i_action (hd (getActionList exampleLocal exampleOpts)) \<noteq> None" by code_simp
  from 1 have "hd (getActionList exampleLocal exampleOpts) \<in> set (getActionList exampleLocal exampleOpts)"
    by (cases "getActionList exampleLocal exampleOpts") auto
  with getActionList_filters[of exampleLocal exampleOpts] 1 2 3 4
  show ?thesis by auto
qed

text \<open>
  Claim C10. Every item that \<^verbatim>\<open>getActionList\<close> returns comes from an entry of the action
  catalog under the item's name that has a first endpoint; the item's action is the
  descriptor of that endpoint (an endpoint always carries a descriptor) without the
  properties \<^verbatim>\<open>handler\<close> and \<^verbatim>\<open>service\<close>.
\<close>

theorem getActionList_items:
  "\<forall>item \<in> set (getActionList st opts).
     (\<exists>ep rest. (i_name item, ep # rest) \<in> set (actions st) \<and>
        i_action item = Some (omit_handler_service (ep_action ep))) \<and>
     (\<exists>a. i_action item = Some a \<and> a_handler a = None \<and> a_service a = None)"
proof
  fix item assume "item \<in> set (getActionList st opts)"
  then obtain kv where kv: "kv \<in> set (actions st)" and l: "listed st opts kv item"
    using getActionList_listed by blast
  from l obtain ep rest where e: "snd kv = ep # rest" "i_name item = fst kv"
     "i_action item = Some (omit_handler_service (ep_action ep))"
    by (auto simp: listed_def)
  have "kv = (i_name item, ep # rest)"
    using e by (simp add: prod_eq_iff)
  with kv have "(i_name item, ep # rest) \<in> set (actions st)"
    by simp
  with e show "(\<exists>ep rest. (i_name item, ep # rest) \<in> set (actions st) \<and>
        i_action item = Some (omit_handler_service (ep_action ep))) \<and>
     (\<exists>a. i_action item = Some a \<and> a_handler a = None \<and> a_service a = None)"
    by (auto simp: omit_handler_service_def)
qed

theorem getActionList_items_witness:
  "map i_name (getActionList exampleLocal exampleOpts) = [''math.add''] \<and>
   (\<exists>ep rest. (''math.add'', ep # rest) \<in> set (actions exampleLocal) \<and>
      i_action (hd (getActionList exampleLocal exampleOpts)) =
        Some (omit_handler_service (ep_action ep))) \<and>
   (\<exists>a. i_action (hd (getActionList exampleLocal exampleOpts)) = Some a \<and>
        a_handler a = None \<and> a_service a = None)"
proof -
  have 1: "map i_name (getActionList exampleLocal exampleOpts) = [''math.add'']" by code_simp
  then have "hd (getActionList exampleLocal exampleOpts) \<in> set (getActionList exampleLocal exampleOpts)"
    and "i_name (hd (getActionList exampleLocal exampleOpts)) = ''math.add''"
    by (cases "getActionList exampleLocal exampleOpts"; auto)+
  with getActionList_items[of exampleLocal exampleOpts] 1
  show ?thesis by auto
qed

subsection \<open>The catalogs keep their invariants\<close>

lemma actions_add_frame [simp]:
  "services (actions_add st node k a) = services st"
  "events (actions_add st node k a) = events st"
  "nodes (actions_add st node k a) = nodes st"
  "effects (actions_add st node k a) = effects st"
  "localNode (actions_add st node k a) = localNode st"
  "broker_nodeID (actions_add st node k a) = broker_nodeID st"
  by (auto simp: actions_add_def split: option.splits)

lemma actions_remove_frame [simp]:
  "services (actions_remove st a n) = services st"
  "events (actions_remove st a n) = events st"
  "nodes (actions_remove st a n) = nodes st"
  "effects (actions_remove st a n) = effects st"
  "localNode (actions_remove st a n) = localNode st"
  "broker_nodeID (actions_remove st a n) = broker_nodeID st"
  by (auto simp: actions_remove_def)

lemma service_addAction_frame [simp]:
  "actions (service_addAction st r a) = actions st"
  "events (service_addAction st r a) = events st"
  "nodes (service_addAction st r a) = nodes st"
  "effects (service_addAction st r a) = effects st"
  "localNode (service_addAction st r a) = localNode st"
  "broker_nodeID (service_addAction st r a) = broker_nodeID st"
  by (auto simp: service_addAction_def)

lemma service_update_frame [simp]:
  "actions (service_update st r svc) = actions st"
  "events (service_update st r svc) = events st"
  "nodes (service_update st r svc) = nodes st"
  "effects (service_update st r svc) = effects st"
  "localNode (service_update st r svc) = localNode st"
  "broker_nodeID (service_update st r svc) = broker_nodeID st"
  by (auto simp: service_update_def)

lemma services_add_frame [simp]:
  "actions (fst (services_add st n nm v se)) = actions st"
  "events (fst (services_add st n nm v se)) = events st"
  "nodes (fst (services_add st n nm v se)) = nodes st"
  "effects (fst (services_add st n nm v se)) = effects st"
  "localNode (fst (services_add st n nm v se)) = localNode st"
  "broker_nodeID (fst (services_add st n nm v se)) = broker_nodeID st"
  by (auto simp: services_add_def)

lemma services_remove_frame [simp]:
  "effects (services_remove st nm v n) = effects st"
  "localNode (services_remove st nm v n) = localNode st"
  "broker_nodeID (services_remove st nm v n) = broker_nodeID st"
  by (auto simp: services_remove_def actions_removeByService_def events_removeByService_def Let_def
      split: option.splits)

lemma find_index_None: "find_index P xs = None \<longleftrightarrow> (\<forall>x \<in> set xs. \<not> P x)"
  by (induction xs) (auto split: option.splits)

lemma find_index_Some:
  "find_index P xs = Some (i, x) \<Longrightarrow> i < length xs \<and> xs ! i = x \<and> P x \<and> x \<in> set xs"
proof (induction xs arbitrary: i)
  case Nil then show ?case by simp
next
  case (Cons y ys)
  show ?case
  proof (cases "P y")
    case True with Cons.prems show ?thesis by auto
  next
    case False
    with Cons.prems obtain j where j: "find_index P ys = Some (j, x)" "i = Suc j"
      by (auto split: option.splits)
    from Cons.IH[OF j(1)] j(2) show ?thesis by auto
  qed
qed

lemma length_modify_at [simp]: "length (modify_at i f xs) = length xs"
  by (induction i f xs rule: modify_at.induct) auto

lemma map_modify_at_inv: "(\<And>x. g (f x) = g x) \<Longrightarrow> map g (modify_at i f xs) = map g xs"
  by (induction i f xs rule: modify_at.induct) auto

lemma keys_service_addAction [simp]:
  "map service_key_of (services (service_addAction st r a)) = map service_key_of (services st)"
  by (simp add: service_addAction_def service_key_of_def map_modify_at_inv)

lemma keys_service_update [simp]:
  "map service_key_of (services (service_update st r svc)) = map service_key_of (services st)"
  by (simp add: service_update_def service_key_of_def map_modify_at_inv)

lemma keys_services_add [simp]:
  "map service_key_of (services (fst (services_add st n nm v se))) =
     map service_key_of (services st) @ [(nm, v, n)]"
  "snd (snd (services_add st n nm v se)) = (nm, v, n)"
  by (simp_all add: services_add_def service_key_of_def)

lemma set_map_ep_node_endpoints_add:
  "set (map ep_node (endpoints_add eps node k a)) = insert node (set (map ep_node eps))"
  by (induction eps) auto

lemma distinct_endpoints_add:
  "distinct (map ep_node eps) \<Longrightarrow> distinct (map ep_node (endpoints_add eps node k a))"
proof (induction eps)
  case Nil then show ?case by simp
next
  case (Cons ep eps)
  then show ?case using set_map_ep_node_endpoints_add[of eps node k a] by auto
qed

lemma endpoints_add_cases:
  "ep \<in> set (endpoints_add eps node k a) \<Longrightarrow>
     (\<exists>ep' \<in> set eps. ep_node ep = ep_node ep' \<and> ep_service ep = ep_service ep') \<or>
     (ep_node ep = node \<and> ep_service ep = k \<and> ep_action ep = a)"
  by (induction eps) (auto split: if_splits)

lemma map_entry_cases:
  "kv \<in> set (AList.map_entry k f xs) \<Longrightarrow> kv \<in> set xs \<or> (\<exists>v. (k, v) \<in> set xs \<and> kv = (k, f v))"
  by (induction xs) (auto split: if_splits)

lemma map_fst_map_entry [simp]: "map fst (AList.map_entry k f xs) = map fst xs"
  by (induction xs) auto

lemma actions_add_entries:
  "kv \<in> set (actions (actions_add st node k a)) \<Longrightarrow>
     kv \<in> set (actions st) \<or>
     (\<exists>eps. (eps = [] \<or> (fst kv, eps) \<in> set (actions st)) \<and> kv = (a_name a, endpoints_add eps node k a))"
  by (auto simp: actions_add_def split: option.splits dest!: map_entry_cases)

lemma unique_endpoints_iff:
  "unique_endpoints st \<longleftrightarrow> (\<forall>kv \<in> set (actions st). distinct (map ep_node (snd kv)))"
  by (simp add: unique_endpoints_def list_all_iff)

lemma owned_endpoints_iff:
  "owned_endpoints st \<longleftrightarrow>
     (\<forall>kv \<in> set (actions st). \<forall>ep \<in> set (snd kv).
        ep_service ep \<in> set (map service_key_of (services st)) \<and> snd (snd (ep_service ep)) = ep_node ep) \<and>
     (\<forall>kv \<in> set (events st). \<forall>ep \<in> set (snd kv).
        ev_service ep \<in> set (map service_key_of (services st)) \<and> snd (snd (ev_service ep)) = ev_node ep)"
  by (simp add: owned_endpoints_def list_all_iff)

lemma wf_actions_add:
  assumes "wf_registry st" "k \<in> set (map service_key_of (services st))" "snd (snd k) = node"
  shows "wf_registry (actions_add st node k a)"
proof -
  have d: "distinct (map fst (actions (actions_add st node k a)))"
    using assms(1) by (auto simp: wf_registry_def actions_add_def map_of_eq_None_iff split: option.splits)
  have u: "unique_endpoints (actions_add st node k a)"
    unfolding unique_endpoints_iff
  proof
    fix kv assume "kv \<in> set (actions (actions_add st node k a))"
    from actions_add_entries[OF this] assms(1) show "distinct (map ep_node (snd kv))"
      by (auto simp: wf_registry_def unique_endpoints_iff intro!: distinct_endpoints_add
               simp del: endpoints_add.simps) 
  qed
  have o1: "ep_service ep \<in> set (map service_key_of (services st)) \<and>
          snd (snd (ep_service ep)) = ep_node ep"
    if kv: "kv \<in> set (actions (actions_add st node k a))" and ep: "ep \<in> set (snd kv)" for kv ep
    using actions_add_entries[OF kv] ep assms
    by (fastforce simp: wf_registry_def owned_endpoints_iff dest: endpoints_add_cases
               simp del: endpoints_add.simps)
  have o: "owned_endpoints (actions_add st node k a)"
    using assms(1) o1 by (auto simp: wf_registry_def owned_endpoints_iff)
  from d u o show ?thesis by (simp add: wf_registry_def)
qed

lemma wf_actions_remove: "wf_registry st \<Longrightarrow> wf_registry (actions_remove st a n)"
  unfolding wf_registry_def unique_endpoints_iff owned_endpoints_iff
  by (auto simp: actions_remove_def distinct_map_filter dest!: map_entry_cases)

lemma wf_services_only:
  assumes "wf_registry st" "actions st' = actions st" "events st' = events st"
    "set (map service_key_of (services st)) \<subseteq> set (map service_key_of (services st'))"
  shows "wf_registry st'"
proof -
  from assms(4) have sub: "\<And>k. k \<in> set (map service_key_of (services st)) \<Longrightarrow>
      k \<in> set (map service_key_of (services st'))" by blast
  from assms(1) have "distinct (map fst (actions st'))" "unique_endpoints st'"
    by (simp_all add: wf_registry_def unique_endpoints_def assms(2))
  moreover from assms(1) have "owned_endpoints st'"
    unfolding wf_registry_def owned_endpoints_iff assms(2) assms(3)
    using sub by blast
  ultimately show ?thesis by (simp add: wf_registry_def)
qed

lemma wf_service_addAction:
  assumes "wf_registry st" shows "wf_registry (service_addAction st r a)"
  using wf_services_only[OF assms, of "service_addAction st r a"] by simp

lemma wf_service_update:
  assumes "wf_registry st" shows "wf_registry (service_update st r svc)"
  using wf_services_only[OF assms, of "service_update st r svc"] by simp

lemma wf_services_add:
  assumes "wf_registry st" shows "wf_registry (fst (services_add st n nm v se))"
  using wf_services_only[OF assms, of "fst (services_add st n nm v se)"] by auto

lemma wf_effects [simp]:
  "wf_registry (broker_emitLocal st e n f) = wf_registry st"
  "wf_registry (logger_warn st m) = wf_registry st"
  "wf_registry (logger_info st m) = wf_registry st"
  "wf_registry (broker_servicesChanged st b) = wf_registry st"
  by (simp_all add: wf_registry_def unique_endpoints_def owned_endpoints_def broker_emitLocal_def
      logger_warn_def logger_info_def broker_servicesChanged_def)

lemma wf_nodes_update [simp]: "wf_registry (st\<lparr>nodes := ns\<rparr>) = wf_registry st"
  by (simp add: wf_registry_def unique_endpoints_def owned_endpoints_def)

lemma services_services_remove:
  "services (services_remove st nm v n) =
     filter (\<lambda>s. \<not> (service_equals s nm v \<and> s_node s = n)) (services st)"
proof (cases "services_get st nm v n")
  case None
  then have "\<forall>s \<in> set (services st). \<not> (service_equals s nm v \<and> s_node s = n)"
    by (simp add: services_get_def find_index_None)
  then have "filter (\<lambda>s. \<not> (service_equals s nm v \<and> s_node s = n)) (services st) = services st"
    by (simp add: filter_id_conv)
  with None show ?thesis by (simp add: services_remove_def)
next
  case (Some r)
  then show ?thesis
    by (simp add: services_remove_def actions_removeByService_def events_removeByService_def Let_def)
qed

lemma key_eq_iff: "service_key_of s = (nm, v, n) \<longleftrightarrow> (service_equals s nm v \<and> s_node s = n)"
  by (auto simp: service_key_of_def service_equals_def)

lemma actions_services_remove:
  "actions (services_remove st nm v n) =
     (if (nm, v, n) \<in> set (map service_key_of (services st))
      then map (\<lambda>(key, eps). (key, filter (\<lambda>ep. ep_service ep \<noteq> (nm, v, n)) eps)) (actions st)
      else actions st)"
proof (cases "services_get st nm v n")
  case None
  then have "\<forall>s \<in> set (services st). service_key_of s \<noteq> (nm, v, n)"
    by (simp add: services_get_def find_index_None key_eq_iff)
  with None show ?thesis by (auto simp: services_remove_def)
next
  case (Some r)
  obtain i x where r: "r = (i, x)" by (cases r)
  from Some r have "x \<in> set (services st)" "service_key_of x = (nm, v, n)"
    using find_index_Some[of _ "services st" i x] by (auto simp: services_get_def key_eq_iff)
  then have "(nm, v, n) \<in> set (map service_key_of (services st))" by force
  with Some show ?thesis
    by (simp add: services_remove_def actions_removeByService_def events_removeByService_def Let_def)
qed

lemma events_services_remove:
  "events (services_remove st nm v n) =
     (if (nm, v, n) \<in> set (map service_key_of (services st))
      then map (\<lambda>(key, eps). (key, filter (\<lambda>ep. ev_service ep \<noteq> (nm, v, n)) eps)) (events st)
      else events st)"
proof (cases "services_get st nm v n")
  case None
  then have "\<forall>s \<in> set (services st). service_key_of s \<noteq> (nm, v, n)"
    by (simp add: services_get_def find_index_None key_eq_iff)
  with None show ?thesis by (auto simp: services_remove_def)
next
  case (Some r)
  obtain i x where r: "r = (i, x)" by (cases r)
  from Some r have "x \<in> set (services st)" "service_key_of x = (nm, v, n)"
    using find_index_Some[of _ "services st" i x] by (auto simp: services_get_def key_eq_iff)
  then have "(nm, v, n) \<in> set (map service_key_of (services st))" by force
  with Some show ?thesis
    by (simp add: services_remove_def actions_removeByService_def events_removeByService_def Let_def)
qed

lemma keys_services_remove:
  "set (map service_key_of (services (services_remove st nm v n))) =
     set (map service_key_of (services st)) - {(nm, v, n)}"
  by (auto simp: services_services_remove key_eq_iff[symmetric])

lemma wf_services_remove:
  assumes "wf_registry st"
  shows "wf_registry (services_remove st nm v n)"
proof -
  let ?st' = "services_remove st nm v n"
  have a: "\<exists>eps. (fst kv, eps) \<in> set (actions st) \<and> set (snd kv) \<subseteq> set eps \<and>
            (distinct (map ep_node eps) \<longrightarrow> distinct (map ep_node (snd kv))) \<and>
            ((nm, v, n) \<in> set (map service_key_of (services st)) \<longrightarrow>
               (\<forall>ep \<in> set (snd kv). ep_service ep \<noteq> (nm, v, n)))"
    if "kv \<in> set (actions ?st')" for kv
  proof -
    obtain k e where "kv = (k, e)" by (cases kv)
    with that show ?thesis
      by (auto simp: actions_services_remove distinct_map_filter split: if_splits)
  qed
  have e: "\<exists>eps. (fst kv, eps) \<in> set (events st) \<and> set (snd kv) \<subseteq> set eps \<and>
            ((nm, v, n) \<in> set (map service_key_of (services st)) \<longrightarrow>
               (\<forall>ep \<in> set (snd kv). ev_service ep \<noteq> (nm, v, n)))"
    if "kv \<in> set (events ?st')" for kv
  proof -
    obtain k e where "kv = (k, e)" by (cases kv)
    with that show ?thesis
      by (auto simp: events_services_remove split: if_splits)
  qed
  have d: "distinct (map fst (actions ?st'))"
    using assms by (simp add: wf_registry_def actions_services_remove o_def case_prod_beta)
  have u: "unique_endpoints ?st'"
    unfolding unique_endpoints_iff
  proof
    fix kv assume "kv \<in> set (actions ?st')"
    from a[OF this] assms show "distinct (map ep_node (snd kv))"
      unfolding wf_registry_def unique_endpoints_iff by fastforce
  qed
  have o1: "ep_service ep \<in> set (map service_key_of (services ?st')) \<and>
          snd (snd (ep_service ep)) = ep_node ep"
    if kv: "kv \<in> set (actions ?st')" and ep: "ep \<in> set (snd kv)" for kv ep
  proof -
    from a[OF kv] obtain eps where eps: "(fst kv, eps) \<in> set (actions st)" "set (snd kv) \<subseteq> set eps"
      "(nm, v, n) \<in> set (map service_key_of (services st)) \<longrightarrow>
               (\<forall>ep \<in> set (snd kv). ep_service ep \<noteq> (nm, v, n))" by blast
    from assms eps(1,2) ep have o: "ep_service ep \<in> set (map service_key_of (services st))"
       "snd (snd (ep_service ep)) = ep_node ep"
      unfolding wf_registry_def owned_endpoints_iff by fastforce+
    with eps(3) ep have "ep_service ep \<noteq> (nm, v, n)" by auto
    with o show ?thesis unfolding keys_services_remove by blast
  qed
  have o2: "ev_service ep \<in> set (map service_key_of (services ?st')) \<and>
          snd (snd (ev_service ep)) = ev_node ep"
    if kv: "kv \<in> set (events ?st')" and ep: "ep \<in> set (snd kv)" for kv ep
  proof -
    from e[OF kv] obtain eps where eps: "(fst kv, eps) \<in> set (events st)" "set (snd kv) \<subseteq> set eps"
      "(nm, v, n) \<in> set (map service_key_of (services st)) \<longrightarrow>
               (\<forall>ep \<in> set (snd kv). ev_service ep \<noteq> (nm, v, n))" by blast
    from assms eps(1,2) ep have o: "ev_service ep \<in> set (map service_key_of (services st))"
       "snd (snd (ev_service ep)) = ev_node ep"
      unfolding wf_registry_def owned_endpoints_iff by fastforce+
    with eps(3) ep have "ev_service ep \<noteq> (nm, v, n)" by auto
    with o show ?thesis unfolding keys_services_remove by blast
  qed
  from o1 o2 have "owned_endpoints ?st'" unfolding owned_endpoints_iff by blast
  with d u show ?thesis by (simp add: wf_registry_def)
qed

lemma keys_fold_register:
  "map service_key_of
     (services (fold (\<lambda>(key, action) st.
                        service_addAction (actions_add st node k action) r action) pairs st)) =
   map service_key_of (services st)"
  by (induction pairs arbitrary: st) (auto simp: case_prod_beta)

lemma keys_registerActions [simp]:
  "map service_key_of (services (registerActions st node r acts)) = map service_key_of (services st)"
  unfolding registerActions_def by (rule keys_fold_register)

lemma wf_fold_register:
  "wf_registry st \<Longrightarrow> snd r \<in> set (map service_key_of (services st)) \<Longrightarrow>
   snd (snd (snd r)) = node \<Longrightarrow>
   wf_registry (fold (\<lambda>(key, action) st.
                        service_addAction (actions_add st node (snd r) action) r action) pairs st)"
proof (induction pairs arbitrary: st)
  case Nil then show ?case by simp
next
  case (Cons ka pairs)
  let ?st' = "service_addAction (actions_add st node (snd r) (snd ka)) r (snd ka)"
  have "wf_registry ?st'"
    using Cons.prems by (intro wf_service_addAction wf_actions_add)
  moreover have "snd r \<in> set (map service_key_of (services ?st'))"
    using Cons.prems by simp
  ultimately show ?case using Cons.IH[of ?st'] Cons.prems(3) by (simp add: case_prod_beta)
qed

lemma wf_registerActions:
  "wf_registry st \<Longrightarrow> snd r \<in> set (map service_key_of (services st)) \<Longrightarrow>
   snd (snd (snd r)) = node \<Longrightarrow> wf_registry (registerActions st node r acts)"
  unfolding registerActions_def by (rule wf_fold_register)

lemma wf_fold_unregister:
  "wf_registry st \<Longrightarrow>
   wf_registry (fold (\<lambda>(name', action) st. if P name' then unregisterAction st node name' else st) xs st)"
  by (induction xs arbitrary: st) (auto simp: unregisterAction_def wf_actions_remove)

lemma keys_fold_unregister [simp]:
  "services (fold (\<lambda>(name', action) st. if P name' then unregisterAction st node name' else st) xs st)
     = services st"
  by (induction xs arbitrary: st) (auto simp: unregisterAction_def)

lemma wf_registerServices_each:
  assumes "wf_registry st"
  shows "wf_registry (state_of (registerServices_each node svc st))"
proof (cases "services_get st (svc_name svc) (svc_version svc) node")
  case None
  let ?a = "services_add st node (svc_name svc) (svc_version svc) (svc_settings svc)"
  have "wf_registry (registerActions (fst ?a) node (snd ?a) (svc_actions svc))"
    by (rule wf_registerActions) (simp_all add: wf_services_add assms)
  with None show ?thesis by (simp add: registerServices_each_def case_prod_beta)
next
  case (Some r)
  obtain i item where r: "r = (i, item)" by (cases r)
  from Some r have item: "item \<in> set (services st)" "s_node item = node"
    using find_index_Some[of _ "services st" i item] by (auto simp: services_get_def)
  let ?r = "(i, service_key_of item)"
  have "wf_registry (registerActions (service_update st ?r svc) node ?r (svc_actions svc))"
    using item by (intro wf_registerActions wf_service_update assms) (auto simp: service_key_of_def)
  then show ?thesis using Some r
    by (auto simp: registerServices_each_def Let_def wf_fold_unregister split: option.splits)
qed

lemma wf_serviceList_forEach:
  "wf_registry st \<Longrightarrow> wf_registry (state_of (serviceList_forEach node L st))"
proof (induction L arbitrary: st)
  case Nil then show ?case by simp
next
  case (Cons svc L)
  from wf_registerServices_each[OF Cons.prems, of node svc] Cons.IH
  show ?case by (cases "registerServices_each node svc st") simp_all
qed

lemma wf_unregisterService: "wf_registry st \<Longrightarrow> wf_registry (unregisterService st nm v nid)"
  by (simp add: unregisterService_def wf_services_remove)

lemma wf_unregisterAction: "wf_registry st \<Longrightarrow> wf_registry (unregisterAction st node nm)"
  by (simp add: unregisterAction_def wf_actions_remove)

lemma wf_cleanup: "wf_registry st \<Longrightarrow> wf_registry (registerServices_cleanup node L s st)"
  by (simp add: registerServices_cleanup_def wf_unregisterService)

lemma wf_services_forEach:
  "wf_registry st \<Longrightarrow>
   wf_registry (services_forEach k len (registerServices_cleanup node L) st)"
proof (induction k len "registerServices_cleanup node L" st rule: services_forEach.induct)
  case (1 k len st)
  show ?case
  proof (cases "k < len")
    case True
    let ?st' = "if k < length (services st)
                then registerServices_cleanup node L (services st ! k) st else st"
    have "wf_registry ?st'" using "1.prems" by (simp add: wf_cleanup)
    from "1.hyps"[OF True this] True show ?thesis
      by (subst services_forEach.simps) simp
  next
    case False
    with "1.prems" show ?thesis by (subst services_forEach.simps) simp
  qed
qed

lemma wf_registerServices:
  "wf_registry st \<Longrightarrow> wf_registry (state_of (registerServices st node L))"
  using wf_serviceList_forEach[of st node L]
  by (cases "serviceList_forEach node L st")
     (simp_all add: registerServices_def wf_services_forEach)

lemma wf_registerLocalService:
  assumes "wf_registry st" shows "wf_registry (registerLocalService st svc)"
proof -
  let ?a = "services_add st (localNode st) (svc_name svc) (svc_version svc) (svc_settings svc)"
  have "wf_registry (registerActions (fst ?a) (localNode st) (snd ?a) (svc_actions svc))"
    by (rule wf_registerActions) (simp_all add: wf_services_add assms)
  then show ?thesis by (simp add: registerLocalService_def case_prod_beta)
qed

lemma wf_fold_services_remove:
  "wf_registry st \<Longrightarrow> wf_registry (fold (\<lambda>s st. services_remove st (f s) (g s) i) xs st)"
  by (induction xs arbitrary: st) (auto simp: wf_services_remove)

lemma wf_unregisterServicesByNode: "wf_registry st \<Longrightarrow> wf_registry (unregisterServicesByNode st n)"
  by (simp add: unregisterServicesByNode_def services_removeAllByNodeID_def wf_fold_services_remove)

lemma wf_node_disconnected [simp]: "wf_registry (node_disconnected st n u) = wf_registry st"
  by (simp add: node_disconnected_def)

lemma wf_nodeDisconnected: "wf_registry st \<Longrightarrow> wf_registry (nodeDisconnected st n u)"
  by (auto simp: nodeDisconnected_def Let_def wf_unregisterServicesByNode split: option.splits)

lemma wf_processNodeInfo:
  assumes "wf_registry st"
  shows "wf_registry (state_of (processNodeInfo nodes_processNodeInfo st p))"
proof -
  let ?st1 = "st\<lparr>nodes := AList.update (p_sender p) \<lparr>n_available = True\<rparr> (nodes st)\<rparr>"
  let ?st2 = "if (case nodes_get st (p_sender p) of None \<Rightarrow> False | Some n \<Rightarrow> n_available n)
              then ?st1 else broker_emitLocal ?st1 ''$node.connected'' (p_sender p) None"
  have "wf_registry ?st2" using assms by simp
  from wf_registerServices[OF this, of "p_sender p" "p_services p"]
  show ?thesis
    by (cases "registerServices ?st2 (p_sender p) (p_services p)")
       (simp_all add: processNodeInfo_def nodes_processNodeInfo_def Let_def)
qed

lemma reachable_wf: "reachable st \<Longrightarrow> wf_registry st"
proof (induction rule: reachable.induct)
  case (reachable_new st)
  then show ?case by (simp add: wf_registry_def unique_endpoints_def owned_endpoints_def)
qed (simp_all add: wf_registerLocalService wf_registerServices wf_nodeDisconnected
      wf_unregisterService wf_unregisterAction wf_processNodeInfo)

subsection \<open>Disconnecting an available node\<close>

lemma services_fold_services_remove:
  "services (fold (\<lambda>s st. services_remove st (s_name s) (s_version s) n) xs st) =
     filter (\<lambda>s. \<not> (s_node s = n \<and> (\<exists>x \<in> set xs. service_equals s (s_name x) (s_version x))))
       (services st)"
proof (induction xs arbitrary: st)
  case Nil then show ?case by simp
next
  case (Cons x xs)
  show ?case
    by (simp add: Cons.IH services_services_remove) (rule filter_cong, auto)
qed

lemma no_services_after_removeAll:
  "s \<in> set (services (services_removeAllByNodeID st n)) \<Longrightarrow> s_node s \<noteq> n"
  unfolding services_removeAllByNodeID_def services_fold_services_remove
  by (auto simp: service_equals_def)

lemma owned_no_service_no_endpoint:
  assumes "wf_registry st" "\<forall>s \<in> set (services st). s_node s \<noteq> n"
  shows "\<forall>kv \<in> set (actions st). \<forall>ep \<in> set (snd kv). ep_node ep \<noteq> n"
    and "\<forall>kv \<in> set (events st). \<forall>ev \<in> set (snd kv). ev_node ev \<noteq> n"
proof -
  have k: "snd (snd k) \<noteq> n" if "k \<in> set (map service_key_of (services st))" for k
    using that assms(2) by (auto simp: service_key_of_def)
  from assms(1) have o: "owned_endpoints st" by (simp add: wf_registry_def)
  show "\<forall>kv \<in> set (actions st). \<forall>ep \<in> set (snd kv). ep_node ep \<noteq> n"
  proof (intro ballI)
    fix kv ep assume "kv \<in> set (actions st)" "ep \<in> set (snd kv)"
    with o have "ep_service ep \<in> set (map service_key_of (services st))"
      "snd (snd (ep_service ep)) = ep_node ep"
      unfolding owned_endpoints_iff by blast+
    with k show "ep_node ep \<noteq> n" by metis
  qed
  show "\<forall>kv \<in> set (events st). \<forall>ev \<in> set (snd kv). ev_node ev \<noteq> n"
  proof (intro ballI)
    fix kv ev assume "kv \<in> set (events st)" "ev \<in> set (snd kv)"
    with o have "ev_service ev \<in> set (map service_key_of (services st))"
      "snd (snd (ev_service ev)) = ev_node ev"
      unfolding owned_endpoints_iff by blast+
    with k show "ev_node ev \<noteq> n" by metis
  qed
qed

lemma effects_fold_services_remove [simp]:
  "effects (fold (\<lambda>s st. services_remove st (f s) (g s) i) xs st) = effects st"
  by (induction xs arbitrary: st) auto

text \<open>
  Claim C3, as the code has it. For every state of the registry and every node of the node
  catalog that is marked available, \<^verbatim>\<open>nodeDisconnected\<close> marks the node unavailable,
  leaves no service of the node in the service catalog, no endpoint of the node in any
  action entry that \<^verbatim>\<open>getActionEndpoints\<close> returns and no event subscription of the node,
  and emits \<^verbatim>\<open>$node.disconnected\<close> with the flag given (then logs a warning and tells the
  broker that the services changed).
\<close>

theorem nodeDisconnected_cascade:
  assumes "reachable st" "nodes_get st n = Some nd" "n_available nd"
  shows "nodes_get (nodeDisconnected st n u) n = Some (nd\<lparr>n_available := False\<rparr>) \<and>
    (\<forall>s \<in> set (services (nodeDisconnected st n u)). s_node s \<noteq> n) \<and>
    (\<forall>a list. getActionEndpoints (nodeDisconnected st n u) a = Some list \<longrightarrow>
        (\<forall>ep \<in> set list. ep_node ep \<noteq> n)) \<and>
    (\<forall>a. getActionEndpointByNodeId (nodeDisconnected st n u) a n = None) \<and>
    (\<forall>kv \<in> set (events (nodeDisconnected st n u)). \<forall>ev \<in> set (snd kv). ev_node ev \<noteq> n) \<and>
    effects (nodeDisconnected st n u) =
      effects st @ [EmitLocal ''$node.disconnected'' n (Some u),
                    LoggerWarn (''Node '' @ [CHR 0x27] @ n @ [CHR 0x27] @ '' disconnected!''),
                    ServicesChanged False]"
proof -
  let ?st2 = "unregisterServicesByNode (node_disconnected st n u) n"
  let ?st' = "nodeDisconnected st n u"
  have nd: "nodes_get ?st' n = Some (nd\<lparr>n_available := False\<rparr>)"
    using assms(2,3)
    by (simp add: nodeDisconnected_def nodes_get_def node_disconnected_def Let_def
        broker_emitLocal_def logger_warn_def broker_servicesChanged_def map_of_map_entry)
  have sv: "services ?st' = services ?st2" and ac: "actions ?st' = actions ?st2"
    and ev: "events ?st' = events ?st2"
    using assms(2,3)
    by (simp_all add: nodeDisconnected_def Let_def broker_emitLocal_def logger_warn_def
        broker_servicesChanged_def)
  have wf: "wf_registry ?st2"
    using reachable_wf[OF assms(1)] by (simp add: wf_unregisterServicesByNode)
  have ns: "\<forall>s \<in> set (services ?st2). s_node s \<noteq> n"
    using no_services_after_removeAll by (auto simp: unregisterServicesByNode_def)
  note ne = owned_no_service_no_endpoint[OF wf ns]
  have ep: "\<forall>a list. getActionEndpoints ?st' a = Some list \<longrightarrow> (\<forall>ep \<in> set list. ep_node ep \<noteq> n)"
  proof (intro allI impI ballI)
    fix a list ep assume "getActionEndpoints ?st' a = Some list" "ep \<in> set list"
    then have "(a, list) \<in> set (actions ?st2)"
      by (auto simp: getActionEndpoints_def actions_get_def ac dest: map_of_SomeD)
    with ne(1) \<open>ep \<in> set list\<close> show "ep_node ep \<noteq> n" by fastforce
  qed
  then have ep2: "\<forall>a. getActionEndpointByNodeId ?st' a n = None"
    by (auto simp: getActionEndpointByNodeId_def getActionEndpoints_def entry_getEndpointByNodeID_def
        find_None_iff split: option.splits)
  have ef: "effects ?st' = effects st @ [EmitLocal ''$node.disconnected'' n (Some u),
                    LoggerWarn (''Node '' @ [CHR 0x27] @ n @ [CHR 0x27] @ '' disconnected!''),
                    ServicesChanged False]"
    using assms(2,3)
    by (simp add: nodeDisconnected_def Let_def broker_emitLocal_def logger_warn_def
        broker_servicesChanged_def unregisterServicesByNode_def services_removeAllByNodeID_def
        node_disconnected_def)
  from nd ns ne(2) ep ep2 ef show ?thesis unfolding sv ev by blast
qed

lemma reachable_exampleRegistry: "reachable exampleRegistry"
  unfolding exampleRegistry_def
  by (intro reachable.intros) (simp_all add: emptyRegistry_def)

theorem nodeDisconnected_cascade_witness:
  "reachable exampleRegistry \<and> nodes_get exampleRegistry ''A'' = Some \<lparr>n_available = True\<rparr> \<and>
   getActionEndpointByNodeId exampleRegistry ''math.add'' ''A'' \<noteq> None \<and>
   nodes_get (nodeDisconnected exampleRegistry ''A'' True) ''A'' = Some \<lparr>n_available = False\<rparr> \<and>
   getActionEndpointByNodeId (nodeDisconnected exampleRegistry ''A'' True) ''math.add'' ''A'' = None \<and>
   services (nodeDisconnected exampleRegistry ''A'' True) = [] \<and>
   EmitLocal ''$node.disconnected'' ''A'' (Some True)
     \<in> set (effects (nodeDisconnected exampleRegistry ''A'' True))"
proof -
  have 1: "nodes_get exampleRegistry ''A'' = Some \<lparr>n_available = True\<rparr>" by code_simp
  have 2: "getActionEndpointByNodeId exampleRegistry ''math.add'' ''A'' \<noteq> None" by code_simp
  have 3: "services (nodeDisconnected exampleRegistry ''A'' True) = []" by code_simp
  from nodeDisconnected_cascade[OF reachable_exampleRegistry 1, of True] 1 2 3 reachable_exampleRegistry
  show ?thesis by simp
qed

text \<open>
  Claim C3, as stated for every registered node, fails: node \<^verbatim>\<open>A\<close> is in the node
  catalog and already unavailable, and \<^verbatim>\<open>nodeDisconnected\<close> emits nothing.
\<close>

theorem nodeDisconnected_cascade_counterexample:
  "nodes_get exampleDisconnected ''A'' = Some \<lparr>n_available = False\<rparr> \<and>
   effects (nodeDisconnected exampleDisconnected ''A'' False) = effects exampleDisconnected \<and>
   EmitLocal ''$node.disconnected'' ''A'' (Some False)
     \<notin> set (effects (nodeDisconnected exampleDisconnected ''A'' False))"
  by code_simp

subsection \<open>Actions that an updated descriptor omits\<close>

lemma services_forEach_invariant:
  "(\<And>s st. Q st \<Longrightarrow> Q (callback s st)) \<Longrightarrow> Q st \<Longrightarrow>
   Q (services_forEach k len callback st)"
proof (induction k len callback st rule: services_forEach.induct)
  case (1 k len callback st)
  show ?case
  proof (cases "k < len")
    case True
    let ?st' = "if k < length (services st) then callback (services st ! k) st else st"
    have "Q ?st'" using "1.prems" by auto
    from "1.IH"[OF True "1.prems"(1) this] True show ?thesis
      by (subst services_forEach.simps) simp
  next
    case False
    with "1.prems" show ?thesis by (subst services_forEach.simps) simp
  qed
qed

lemma no_endpoint_iff:
  "getActionEndpointByNodeId st a n = None \<longleftrightarrow>
     (\<forall>eps. map_of (actions st) a = Some eps \<longrightarrow> (\<forall>ep \<in> set eps. ep_node ep \<noteq> n))"
  by (auto simp: getActionEndpointByNodeId_def actions_get_def entry_getEndpointByNodeID_def
      find_None_iff split: option.splits)

lemma entry_actions_add_other:
  "a_name act \<noteq> a \<Longrightarrow> map_of (actions (actions_add st n k act)) a = map_of (actions st) a"
  by (auto simp: actions_add_def map_of_map_entry map_add_def split: option.splits)

lemma no_endpoint_actions_remove:
  "getActionEndpointByNodeId st a n = None \<Longrightarrow>
   getActionEndpointByNodeId (actions_remove st x m) a n = None"
  unfolding no_endpoint_iff
  by (auto simp: actions_remove_def map_of_map_entry split: option.splits if_splits)

lemma no_endpoint_after_remove:
  "getActionEndpointByNodeId (actions_remove st a n) a n = None"
  unfolding no_endpoint_iff
  by (auto simp: actions_remove_def map_of_map_entry split: option.splits)

lemma no_endpoint_services_remove:
  assumes "getActionEndpointByNodeId st a n = None"
  shows "getActionEndpointByNodeId (services_remove st nm v m) a n = None"
proof -
  have "map_of (map (\<lambda>(key, eps). (key, filter P eps)) (actions st)) a =
        map_option (filter P) (map_of (actions st) a)" for P :: "endpoint \<Rightarrow> bool"
    by (simp add: map_of_map)
  with assms show ?thesis
    unfolding no_endpoint_iff actions_services_remove by auto
qed

lemma no_endpoint_fold_register:
  "\<forall>act \<in> snd ` set pairs. a_name act \<noteq> a \<Longrightarrow>
   map_of (actions (fold (\<lambda>(key, action) st.
                            service_addAction (actions_add st n k action) r action) pairs st)) a =
   map_of (actions st) a"
  by (induction pairs arbitrary: st) (auto simp: case_prod_beta entry_actions_add_other)

lemma entry_registerActions:
  "\<forall>pairs. acts = Some pairs \<longrightarrow> (\<forall>act \<in> snd ` set pairs. a_name act \<noteq> a) \<Longrightarrow>
   map_of (actions (registerActions st n r acts)) a = map_of (actions st) a"
  unfolding registerActions_def
  by (cases acts) (simp_all add: no_endpoint_fold_register)

lemma no_endpoint_fold_unregister:
  "getActionEndpointByNodeId st a n = None \<Longrightarrow>
   getActionEndpointByNodeId
     (fold (\<lambda>(name', action) st. if P name' then unregisterAction st m name' else st) prev st) a n
     = None"
  by (induction prev arbitrary: st)
     (auto simp: unregisterAction_def no_endpoint_actions_remove)

lemma fold_unregister_removes:
  "a \<in> set (map fst prev) \<Longrightarrow> P a \<Longrightarrow>
   getActionEndpointByNodeId
     (fold (\<lambda>(name', action) st. if P name' then unregisterAction st n name' else st) prev st) a n
     = None"
proof (induction prev arbitrary: st)
  case Nil then show ?case by simp
next
  case (Cons ka prev)
  obtain x act where ka: "ka = (x, act)" by (cases ka)
  show ?case
  proof (cases "x = a")
    case True
    have "getActionEndpointByNodeId (unregisterAction st n a) a n = None"
      by (simp add: unregisterAction_def no_endpoint_after_remove)
    from no_endpoint_fold_unregister[OF this, of P n prev] Cons.prems(2) True ka
    show ?thesis by simp
  next
    case False
    with Cons.prems ka have "a \<in> set (map fst prev)" by auto
    from Cons.IH[OF this Cons.prems(2)] show ?thesis by (simp add: ka)
  qed
qed

text \<open>One round of the first loop, for a descriptor that offers no action named \<open>a\<close>.\<close>

lemma no_endpoint_each:
  assumes "getActionEndpointByNodeId st a n = None"
    and "\<forall>pairs. svc_actions t = Some pairs \<longrightarrow> (\<forall>act \<in> snd ` set pairs. a_name act \<noteq> a)"
  shows "getActionEndpointByNodeId (state_of (registerServices_each m t st)) a n = None"
proof (cases "services_get st (svc_name t) (svc_version t) m")
  case None
  let ?a = "services_add st m (svc_name t) (svc_version t) (svc_settings t)"
  have "map_of (actions (registerActions (fst ?a) m (snd ?a) (svc_actions t))) a =
        map_of (actions st) a"
    using entry_registerActions[OF assms(2)] by simp
  with assms(1) None show ?thesis
    by (simp add: registerServices_each_def case_prod_beta no_endpoint_iff)
next
  case (Some r)
  obtain i item where r: "r = (i, item)" by (cases r)
  let ?r = "(i, service_key_of item)"
  let ?st2 = "registerActions (service_update st ?r t) m ?r (svc_actions t)"
  have "map_of (actions ?st2) a = map_of (actions st) a"
    using entry_registerActions[OF assms(2)] by simp
  with assms(1) have "getActionEndpointByNodeId ?st2 a n = None"
    by (simp add: no_endpoint_iff)
  with Some r show ?thesis
    by (auto simp: registerServices_each_def Let_def no_endpoint_fold_unregister
        split: option.splits)
qed

lemma no_endpoint_serviceList_forEach:
  assumes "\<forall>t \<in> set L. \<forall>pairs. svc_actions t = Some pairs \<longrightarrow>
             (\<forall>act \<in> snd ` set pairs. a_name act \<noteq> a)"
    and "getActionEndpointByNodeId st a n = None"
  shows "getActionEndpointByNodeId (state_of (serviceList_forEach m L st)) a n = None"
  using assms
proof (induction L arbitrary: st)
  case Nil then show ?case by simp
next
  case (Cons t L)
  have "getActionEndpointByNodeId (state_of (registerServices_each m t st)) a n = None"
    using Cons.prems by (intro no_endpoint_each) simp_all
  with Cons.IH Cons.prems(1) show ?case
    by (cases "registerServices_each m t st") simp_all
qed

lemma no_endpoint_cleanup:
  "getActionEndpointByNodeId st a n = None \<Longrightarrow>
   getActionEndpointByNodeId (registerServices_cleanup m L s st) a n = None"
  by (simp add: registerServices_cleanup_def unregisterService_def no_endpoint_services_remove)

lemma no_endpoint_services_forEach:
  "getActionEndpointByNodeId st a n = None \<Longrightarrow>
   getActionEndpointByNodeId (services_forEach k len (registerServices_cleanup m L) st) a n = None"
  by (rule services_forEach_invariant[where Q = "\<lambda>st. getActionEndpointByNodeId st a n = None"])
     (simp_all add: no_endpoint_cleanup)

text \<open>The stored service, with its action, stays where it is through the first loop.\<close>

lemma find_index_append:
  "find_index P xs = Some r \<Longrightarrow> find_index P (xs @ ys) = Some r"
  by (induction xs arbitrary: r) (auto split: option.splits if_splits)

lemma find_index_modify_at:
  "(\<And>x. P (f x) = P x) \<Longrightarrow> find_index P xs = Some (i, x) \<Longrightarrow>
   find_index P (modify_at j f xs) = Some (i, if i = j then f x else x)"
proof (induction j f xs arbitrary: i rule: modify_at.induct)
  case (1 j f) then show ?case by simp
next
  case (2 f y ys)
  then show ?case by (auto split: option.splits if_splits)
next
  case (3 j f y ys)
  show ?case
  proof (cases "P y")
    case True with 3 show ?thesis by auto
  next
    case False
    with 3(3) obtain i' where i': "find_index P ys = Some (i', x)" "i = Suc i'"
      by (auto split: option.splits)
    from 3(1)[OF 3(2) i'(1)] False i'(2) show ?thesis by simp
  qed
qed

lemma has_stored_frame:
  "services st' = services st \<Longrightarrow> has_stored st' nm v n i a = has_stored st nm v n i a"
  by (simp add: has_stored_def services_get_def)

lemma has_stored_services_add:
  assumes "has_stored st nm v n i a"
  shows "has_stored (fst (services_add st m nm' v' se)) nm v n i a"
proof -
  let ?P = "\<lambda>s. service_equals s nm v \<and> s_node s = n"
  from assms obtain item where
    f: "find_index ?P (services st) = Some (i, item)" and a: "a \<in> set (map fst (s_actions item))"
    by (auto simp: has_stored_def services_get_def)
  from find_index_append[OF f] a show ?thesis
    by (auto simp: has_stored_def services_get_def services_add_def)
qed

lemma has_stored_modify:
  assumes "has_stored st nm v n i a"
    and "\<And>s. s_name (f s) = s_name s \<and> s_version (f s) = s_version s \<and> s_node (f s) = s_node s \<and>
              set (map fst (s_actions s)) \<subseteq> set (map fst (s_actions (f s)))"
  shows "has_stored (st\<lparr>services := modify_at j f (services st)\<rparr>) nm v n i a"
proof -
  let ?P = "\<lambda>s. service_equals s nm v \<and> s_node s = n"
  from assms(1) obtain item where
    f: "find_index ?P (services st) = Some (i, item)" and a: "a \<in> set (map fst (s_actions item))"
    by (auto simp: has_stored_def services_get_def)
  have "find_index ?P (modify_at j f (services st)) = Some (i, if i = j then f item else item)"
    by (rule find_index_modify_at[OF _ f]) (simp add: service_equals_def assms(2))
  moreover have "a \<in> set (map fst (s_actions (f item)))"
    using a assms(2)[of item] by blast
  ultimately show ?thesis using a
    by (auto simp: has_stored_def services_get_def)
qed

lemma has_stored_service_addAction:
  "has_stored st nm v n i a \<Longrightarrow> has_stored (service_addAction st r act) nm v n i a"
  unfolding service_addAction_def
  by (rule has_stored_modify) (auto simp: AList.dom_update)

lemma has_stored_service_update:
  "has_stored st nm v n i a \<Longrightarrow> has_stored (service_update st r svc) nm v n i a"
  unfolding service_update_def
  by (rule has_stored_modify) auto

lemma has_stored_fold_register:
  "has_stored st nm v n i a \<Longrightarrow>
   has_stored (fold (\<lambda>(key, action) st.
                       service_addAction (actions_add st m k action) r action) pairs st) nm v n i a"
proof (induction pairs arbitrary: st)
  case Nil then show ?case by simp
next
  case (Cons ka pairs)
  have "has_stored (actions_add st m k (snd ka)) nm v n i a"
    using Cons.prems has_stored_frame[of "actions_add st m k (snd ka)" st nm v n i a] by simp
  then have "has_stored (service_addAction (actions_add st m k (snd ka)) r (snd ka)) nm v n i a"
    by (rule has_stored_service_addAction)
  from Cons.IH[OF this] show ?case by (simp add: case_prod_beta)
qed

lemma has_stored_registerActions:
  "has_stored st nm v n i a \<Longrightarrow> has_stored (registerActions st m r acts) nm v n i a"
  unfolding registerActions_def by (rule has_stored_fold_register)

lemma has_stored_each:
  assumes "has_stored st nm v n i a"
  shows "has_stored (state_of (registerServices_each m t st)) nm v n i a"
proof (cases "services_get st (svc_name t) (svc_version t) m")
  case None
  let ?a = "services_add st m (svc_name t) (svc_version t) (svc_settings t)"
  have "has_stored (registerActions (fst ?a) m (snd ?a) (svc_actions t)) nm v n i a"
    by (intro has_stored_registerActions has_stored_services_add assms)
  with None show ?thesis by (simp add: registerServices_each_def case_prod_beta)
next
  case (Some r)
  obtain j item where r: "r = (j, item)" by (cases r)
  let ?r = "(j, service_key_of item)"
  let ?st2 = "registerActions (service_update st ?r t) m ?r (svc_actions t)"
  have "has_stored ?st2 nm v n i a"
    by (intro has_stored_registerActions has_stored_service_update assms)
  moreover have "has_stored (fold (\<lambda>(name', action) st.
                     if P name' then unregisterAction st m name' else st) prev ?st2) nm v n i a
        = has_stored ?st2 nm v n i a" for P prev
    by (rule has_stored_frame) simp
  ultimately show ?thesis using Some r
    by (auto simp: registerServices_each_def Let_def split: option.splits)
qed

text \<open>The round for the descriptor that omits \<open>a\<close> takes the endpoint away.\<close>

lemma registerServices_each_removes:
  assumes "has_stored st (svc_name svc) (svc_version svc) n i a"
    and "svc_actions svc = Some acts" and "\<not> truthy_property acts a"
  shows "\<exists>st'. registerServices_each n svc st = Return () st' \<and>
               getActionEndpointByNodeId st' a n = None"
proof -
  from assms(1) obtain item where
    g: "services_get st (svc_name svc) (svc_version svc) n = Some (i, item)"
    and a: "a \<in> set (map fst (s_actions item))"
    by (auto simp: has_stored_def)
  from fold_unregister_removes[OF a, of "\<lambda>x. \<not> truthy_property acts x"] assms(3) g assms(2)
  show ?thesis by (simp add: registerServices_each_def Let_def)
qed

lemma has_stored_serviceList_forEach:
  "has_stored st nm v n i a \<Longrightarrow> has_stored (state_of (serviceList_forEach m L st)) nm v n i a"
proof (induction L arbitrary: st)
  case Nil then show ?case by simp
next
  case (Cons t L)
  from has_stored_each[OF Cons.prems, of m t] Cons.IH
  show ?case by (cases "registerServices_each m t st") simp_all
qed

lemma serviceList_forEach_append:
  "serviceList_forEach n (xs @ ys) st =
     (case serviceList_forEach n xs st of
        Return u st' \<Rightarrow> serviceList_forEach n ys st'
      | Throw e st' \<Rightarrow> Throw e st')"
proof (induction xs arbitrary: st)
  case Nil then show ?case by simp
next
  case (Cons x xs)
  then show ?case by (cases "registerServices_each n x st") simp_all
qed

lemma serviceList_forEach_removes:
  assumes "has_stored st (svc_name svc) (svc_version svc) n i a"
    and "svc_actions svc = Some acts" and "\<not> truthy_property acts a"
    and "\<forall>t \<in> set after. \<forall>pairs. svc_actions t = Some pairs \<longrightarrow>
             (\<forall>act \<in> snd ` set pairs. a_name act \<noteq> a)"
    and "serviceList_forEach n (before @ svc # after) st = Return u st'"
  shows "getActionEndpointByNodeId st' a n = None"
proof -
  from assms(5) obtain w st1 where
    b: "serviceList_forEach n before st = Return w st1" and
    r: "serviceList_forEach n (svc # after) st1 = Return u st'"
    by (cases "serviceList_forEach n before st") (simp_all add: serviceList_forEach_append)
  from has_stored_serviceList_forEach[OF assms(1), of n before] b
  have hs: "has_stored st1 (svc_name svc) (svc_version svc) n i a" by simp
  from registerServices_each_removes[OF hs assms(2,3)] obtain st2 where
    e: "registerServices_each n svc st1 = Return () st2" and
    ne: "getActionEndpointByNodeId st2 a n = None" by blast
  from r e have l: "serviceList_forEach n after st2 = Return u st'" by simp
  from no_endpoint_serviceList_forEach[OF assms(4) ne, of n] l show ?thesis by simp
qed

lemma registerServices_each_returns:
  "svc_actions t \<noteq> None \<Longrightarrow> value_of (registerServices_each n t st) = Some ()"
  by (auto simp: registerServices_each_def Let_def case_prod_beta split: option.splits)

lemma serviceList_forEach_returns:
  "\<forall>t \<in> set L. svc_actions t \<noteq> None \<Longrightarrow> value_of (serviceList_forEach n L st) = Some ()"
proof (induction L arbitrary: st)
  case Nil then show ?case by simp
next
  case (Cons t L)
  from registerServices_each_returns[of t n st] Cons.prems Cons.IH
  show ?case by (cases "registerServices_each n t st") simp_all
qed

lemma registerServices_value:
  "value_of (registerServices st n L) = value_of (serviceList_forEach n L st)"
  by (cases "serviceList_forEach n L st") (simp_all add: registerServices_def)

text \<open>
  Claim C6, as the code has it. Let the service (name, version) be registered for node
  \<^verbatim>\<open>n\<close> with an action of name \<^verbatim>\<open>a\<close> among its stored actions, let the list \<^verbatim>\<open>L\<close>
  hold a descriptor \<^verbatim>\<open>svc\<close> of that service whose \<^verbatim>\<open>actions\<close> object has no property
  \<^verbatim>\<open>a\<close> of its own, let \<^verbatim>\<open>a\<close> not be the name of a property that every object inherits,
  and let no descriptor that comes after \<^verbatim>\<open>svc\<close> in \<^verbatim>\<open>L\<close> offer an action named
  \<^verbatim>\<open>a\<close>. Then, when \<^verbatim>\<open>registerServices(n, L)\<close> returns, node \<^verbatim>\<open>n\<close> has no endpoint
  for \<^verbatim>\<open>a\<close>; and the call does return when every descriptor of \<^verbatim>\<open>L\<close> has an
  \<^verbatim>\<open>actions\<close> object.
\<close>

theorem registerServices_removes_omitted_actions:
  assumes "services_get st (svc_name svc) (svc_version svc) n = Some (i, item)"
    and "a \<in> set (map fst (s_actions item))"
    and "L = before @ svc # after"
    and "svc_actions svc = Some acts"
    and "map_of acts a = None"
    and "a \<notin> set object_prototype_names"
    and "\<forall>t \<in> set after. \<forall>pairs. svc_actions t = Some pairs \<longrightarrow>
           (\<forall>act \<in> snd ` set pairs. a_name act \<noteq> a)"
  shows "(value_of (registerServices st n L) = Some () \<longrightarrow>
           getActionEndpointByNodeId (state_of (registerServices st n L)) a n = None) \<and>
         ((\<forall>t \<in> set L. svc_actions t \<noteq> None) \<longrightarrow>
           value_of (registerServices st n L) = Some ())"
proof (intro conjI impI)
  assume r: "value_of (registerServices st n L) = Some ()"
  then obtain st1 where l: "serviceList_forEach n L st = Return () st1"
    by (cases "serviceList_forEach n L st") (simp_all add: registerServices_def)
  have hs: "has_stored st (svc_name svc) (svc_version svc) n i a"
    using assms(1,2) by (auto simp: has_stored_def)
  have nt: "\<not> truthy_property acts a"
    using assms(5,6) by (simp add: truthy_property_def)
  have "getActionEndpointByNodeId st1 a n = None"
    by (rule serviceList_forEach_removes[OF hs assms(4) nt assms(7) l[unfolded assms(3)]])
  then have "getActionEndpointByNodeId
      (services_forEach 0 (length (services st1)) (registerServices_cleanup n L) st1) a n = None"
    by (rule no_endpoint_services_forEach)
  with l show "getActionEndpointByNodeId (state_of (registerServices st n L)) a n = None"
    by (simp add: registerServices_def)
next
  assume "\<forall>t \<in> set L. svc_actions t \<noteq> None"
  then show "value_of (registerServices st n L) = Some ()"
    by (simp add: registerServices_value serviceList_forEach_returns)
qed

theorem registerServices_removes_omitted_actions_witness:
  "services_get exampleTwo ''math'' VUndefined ''A'' = Some (0, exampleItem) \<and>
   ''math.sub'' \<in> set (map fst (s_actions exampleItem)) \<and>
   getActionEndpointByNodeId exampleTwo ''math.sub'' ''A'' \<noteq> None \<and>
   value_of (registerServices exampleTwo ''A''
     [mkService ''other'' [''math.sub''], mkService ''math'' [''math.add'']]) = Some () \<and>
   getActionEndpointByNodeId
     (state_of (registerServices exampleTwo ''A''
        [mkService ''other'' [''math.sub''], mkService ''math'' [''math.add'']]))
     ''math.sub'' ''A'' = None"
proof -
  let ?svc = "mkService ''math'' [''math.add'']"
  let ?L = "[mkService ''other'' [''math.sub''], ?svc]"
  have 1: "services_get exampleTwo (svc_name ?svc) (svc_version ?svc) ''A'' = Some (0, exampleItem)"
    by code_simp
  have 2: "''math.sub'' \<in> set (map fst (s_actions exampleItem))" by code_simp
  have 3: "?L = [mkService ''other'' [''math.sub'']] @ ?svc # []" by simp
  have 4: "svc_actions ?svc = Some [(''math.add'', mkAction ''math.add'')]" by code_simp
  have 5: "map_of [(''math.add'', mkAction ''math.add'')] ''math.sub'' = None" by code_simp
  have 6: "''math.sub'' \<notin> set object_prototype_names" by code_simp
  have 7: "\<forall>t \<in> set []. \<forall>pairs. svc_actions t = Some pairs \<longrightarrow>
           (\<forall>act \<in> snd ` set pairs. a_name act \<noteq> ''math.sub'')"
    by simp
  have 8: "\<forall>t \<in> set ?L. svc_actions t \<noteq> None" by (simp add: mkService_def)
  have 9: "getActionEndpointByNodeId exampleTwo ''math.sub'' ''A'' \<noteq> None" by code_simp
  have 10: "services_get exampleTwo ''math'' VUndefined ''A'' = Some (0, exampleItem)" by code_simp
  from registerServices_removes_omitted_actions[OF 1 2 3 4 5 6 7] 2 8 9 10
  show ?thesis by simp
qed

text \<open>
  Claim C6, as stated, fails: node \<^verbatim>\<open>A\<close> has the service \<^verbatim>\<open>math\<close> with the actions
  \<^verbatim>\<open>math.add\<close> and \<^verbatim>\<open>math.sub\<close>; the new list updates \<^verbatim>\<open>math\<close> with a descriptor
  that omits \<^verbatim>\<open>math.sub\<close> and brings a service \<^verbatim>\<open>other\<close> that offers an action of that
  name. After the call node \<^verbatim>\<open>A\<close> has an endpoint for \<^verbatim>\<open>math.sub\<close>.
\<close>

theorem registerServices_removes_omitted_actions_counterexample:
  "services_get exampleTwo ''math'' VUndefined ''A'' = Some (0, exampleItem) \<and>
   ''math.sub'' \<in> set (map fst (s_actions exampleItem)) \<and>
   hd exampleOffered = mkService ''math'' [''math.add''] \<and>
   svc_actions (hd exampleOffered) = Some [(''math.add'', mkAction ''math.add'')] \<and>
   value_of (registerServices exampleTwo ''A'' exampleOffered) = Some () \<and>
   getActionEndpointByNodeId (state_of (registerServices exampleTwo ''A'' exampleOffered))
     ''math.sub'' ''A'' \<noteq> None"
  by code_simp

text \<open>
  The two cases that the statement above leaves out. An action whose name is the name of
  an inherited property passes the test \<^verbatim>\<open>svc.actions[name]\<close> though the descriptor
  omits it, and its endpoint stays; and for a descriptor without an \<^verbatim>\<open>actions\<close> object
  the test throws, so the call ends there and the endpoints stay.
\<close>

lemma registerServices_inherited_name_stays:
  "getActionEndpointByNodeId exampleInherited ''toString'' ''A'' \<noteq> None \<and>
   value_of (registerServices exampleInherited ''A'' [mkService ''obj'' [''obj.x'']]) = Some () \<and>
   getActionEndpointByNodeId
     (state_of (registerServices exampleInherited ''A'' [mkService ''obj'' [''obj.x'']]))
     ''toString'' ''A'' \<noteq> None"
  by code_simp

lemma registerServices_throws_without_actions:
  "value_of (registerServices exampleTwo ''A'' [(mkService ''math'' [])\<lparr>svc_actions := None\<rparr>]) = None \<and>
   getActionEndpointByNodeId
     (state_of (registerServices exampleTwo ''A'' [(mkService ''math'' [])\<lparr>svc_actions := None\<rparr>]))
     ''math.sub'' ''A'' \<noteq> None"
  by code_simp

subsection \<open>Services that the second loop of \<^verbatim>\<open>registerServices\<close> passes over\<close>

lemma reachable_exampleStale: "reachable exampleStale"
  unfolding exampleStale_def
  by (intro reachable.intros) (simp_all add: emptyRegistry_def)

text \<open>
  Claim C1 at an input that breaks it. Node \<^verbatim>\<open>A\<close> has announced the services
  \<^verbatim>\<open>x1\<close>, \<^verbatim>\<open>x2\<close>, \<^verbatim>\<open>x3\<close>. Then \<^verbatim>\<open>registerServices(A, [s])\<close> takes \<^verbatim>\<open>x1\<close> out
  of the array that its second loop is walking, \<^verbatim>\<open>x2\<close> moves to the place just visited
  and is passed over, so \<^verbatim>\<open>x2\<close> stays in the catalog before \<^verbatim>\<open>s\<close>. Then
  \<^verbatim>\<open>registerServices(A, [])\<close> takes \<^verbatim>\<open>x2\<close> out and passes over \<^verbatim>\<open>s\<close> in the same
  way: \<^verbatim>\<open>s\<close> is still in the catalog and node \<^verbatim>\<open>A\<close> still has its endpoint for
  \<^verbatim>\<open>s.a\<close>. Both calls return.
\<close>

theorem registerServices_reconcile_passes_over:
  "reachable exampleStale \<and>
   map service_key_of (services exampleStale) =
     [(''x1'', VUndefined, ''A''), (''x2'', VUndefined, ''A''), (''x3'', VUndefined, ''A'')] \<and>
   value_of (registerServices exampleStale ''A'' [mkService ''s'' [''s.a'']]) = Some () \<and>
   map service_key_of (services exampleListed) =
     [(''x2'', VUndefined, ''A''), (''s'', VUndefined, ''A'')] \<and>
   value_of (registerServices exampleListed ''A'' []) = Some () \<and>
   map service_key_of (services exampleReconciled) = [(''s'', VUndefined, ''A'')] \<and>
   services_get exampleReconciled ''s'' VUndefined ''A'' \<noteq> None \<and>
   map_option (map ep_node) (getActionEndpoints exampleReconciled ''s.a'') = Some [''A''] \<and>
   getActionEndpointByNodeId exampleReconciled ''s.a'' ''A'' \<noteq> None"
proof -
  have "map service_key_of (services exampleStale) =
     [(''x1'', VUndefined, ''A''), (''x2'', VUndefined, ''A''), (''x3'', VUndefined, ''A'')]"
    by code_simp
  moreover have "value_of (registerServices exampleStale ''A'' [mkService ''s'' [''s.a'']]) = Some ()"
    by code_simp
  moreover have "map service_key_of (services exampleListed) =
     [(''x2'', VUndefined, ''A''), (''s'', VUndefined, ''A'')]"
    by code_simp
  moreover have "value_of (registerServices exampleListed ''A'' []) = Some ()"
    by code_simp
  moreover have "map service_key_of (services exampleReconciled) = [(''s'', VUndefined, ''A'')]"
    by code_simp
  moreover have "services_get exampleReconciled ''s'' VUndefined ''A'' \<noteq> None"
    by code_simp
  moreover have "map_option (map ep_node) (getActionEndpoints exampleReconciled ''s.a'') = Some [''A'']"
    by code_simp
  moreover have "getActionEndpointByNodeId exampleReconciled ''s.a'' ''A'' \<noteq> None"
    by code_simp
  ultimately show ?thesis using reachable_exampleStale by blast
qed

text \<open>
  A second way to the same end: for a node whose id is the empty string,
  \<^verbatim>\<open>nodeID || this.broker.nodeID\<close> of \<^verbatim>\<open>unregisterService\<close> sends the removal to the
  broker's own node, and the service of the node stays.
\<close>

lemma unregisterService_empty_node_id:
  "services_get exampleNoId ''math'' VUndefined [] \<noteq> None \<and>
   getActionEndpointByNodeId exampleNoId ''math.add'' [] \<noteq> None"
  by code_simp

text \<open>
  Claim C2 at an input that breaks it. Node \<^verbatim>\<open>A\<close> has announced the services
  \<^verbatim>\<open>x1\<close> and \<^verbatim>\<open>x2\<close>. The first \<^verbatim>\<open>registerServices(A, [])\<close> takes \<^verbatim>\<open>x1\<close> out and
  passes over \<^verbatim>\<open>x2\<close>; the second call, with the same list, takes \<^verbatim>\<open>x2\<close> and its
  endpoint out: it changes the service catalog and the action catalog.
\<close>

theorem registerServices_twice_differs:
  "map service_key_of (services exampleAnnounced) =
     [(''x1'', VUndefined, ''A''), (''x2'', VUndefined, ''A'')] \<and>
   value_of (registerServices exampleAnnounced ''A'' []) = Some () \<and>
   map service_key_of (services exampleOnce) = [(''x2'', VUndefined, ''A'')] \<and>
   map_option (map ep_node) (getActionEndpoints exampleOnce ''x2.a'') = Some [''A''] \<and>
   value_of (registerServices exampleOnce ''A'' []) = Some () \<and>
   services (state_of (registerServices exampleOnce ''A'' [])) = [] \<and>
   map_option (map ep_node)
     (getActionEndpoints (state_of (registerServices exampleOnce ''A'' [])) ''x2.a'') = Some [] \<and>
   services (state_of (registerServices exampleOnce ''A'' [])) \<noteq> services exampleOnce \<and>
   actions (state_of (registerServices exampleOnce ''A'' [])) \<noteq> actions exampleOnce"
proof -
  have "map service_key_of (services exampleAnnounced) =
     [(''x1'', VUndefined, ''A''), (''x2'', VUndefined, ''A'')]"
    by code_simp
  moreover have "value_of (registerServices exampleAnnounced ''A'' []) = Some ()"
    by code_simp
  moreover have "map service_key_of (services exampleOnce) = [(''x2'', VUndefined, ''A'')]"
    by code_simp
  moreover have "map_option (map ep_node) (getActionEndpoints exampleOnce ''x2.a'') = Some [''A'']"
    by code_simp
  moreover have "value_of (registerServices exampleOnce ''A'' []) = Some ()"
    by code_simp
  moreover have "services (state_of (registerServices exampleOnce ''A'' [])) = []"
    by code_simp
  moreover have "map_option (map ep_node)
     (getActionEndpoints (state_of (registerServices exampleOnce ''A'' [])) ''x2.a'') = Some []"
    by code_simp
  moreover have "services (state_of (registerServices exampleOnce ''A'' [])) \<noteq> services exampleOnce"
    by code_simp
  moreover have "actions (state_of (registerServices exampleOnce ''A'' [])) \<noteq> actions exampleOnce"
    by code_simp
  ultimately show ?thesis by blast
qed

subsection \<open>Uniqueness in the catalogs\<close>

lemma reachable_unique_endpoints:
  assumes "reachable st" and "getActionEndpoints st a = Some list"
  shows "distinct (map ep_node list)"
proof -
  from assms(2) have "(a, list) \<in> set (actions st)"
    by (auto simp: getActionEndpoints_def actions_get_def dest: map_of_SomeD)
  with reachable_wf[OF assms(1)] show ?thesis
    by (auto simp: wf_registry_def unique_endpoints_iff)
qed

text \<open>
  At most one service per triple (name, version, node id): every operation keeps this,
  \<^verbatim>\<open>registerLocalService\<close> only when the local node does not have the service yet.
\<close>

lemma key_in_keys_iff:
  "(nm, v, n) \<in> set (map service_key_of S) \<longleftrightarrow>
     (\<exists>s \<in> set S. service_equals s nm v \<and> s_node s = n)"
  by (auto simp: service_key_of_def service_equals_def)

lemma unique_services_each:
  assumes "distinct (map service_key_of (services st))"
  shows "distinct (map service_key_of (services (state_of (registerServices_each n svc st))))"
proof (cases "services_get st (svc_name svc) (svc_version svc) n")
  case None
  then have "(svc_name svc, svc_version svc, n) \<notin> set (map service_key_of (services st))"
    unfolding key_in_keys_iff by (simp add: services_get_def find_index_None)
  with None assms show ?thesis
    by (simp add: registerServices_each_def case_prod_beta)
next
  case (Some r)
  obtain i item where r: "r = (i, item)" by (cases r)
  have "map service_key_of (services (fold (\<lambda>(name', action) st.
            if P name' then unregisterAction st n name' else st) prev st')) =
        map service_key_of (services st')" for P prev st'
    by simp
  with Some r assms show ?thesis
    by (auto simp: registerServices_each_def Let_def split: option.splits)
qed

lemma unique_services_serviceList_forEach:
  "distinct (map service_key_of (services st)) \<Longrightarrow>
   distinct (map service_key_of (services (state_of (serviceList_forEach n L st))))"
proof (induction L arbitrary: st)
  case Nil then show ?case by simp
next
  case (Cons svc L)
  from unique_services_each[OF Cons.prems, of n svc] Cons.IH
  show ?case by (cases "registerServices_each n svc st") simp_all
qed

lemma unique_services_remove:
  "distinct (map service_key_of (services st)) \<Longrightarrow>
   distinct (map service_key_of (services (services_remove st nm v n)))"
  unfolding services_services_remove by (rule distinct_map_filter)

lemma unique_services_registerServices:
  assumes "distinct (map service_key_of (services st))"
  shows "distinct (map service_key_of (services (state_of (registerServices st n L))))"
proof -
  have c: "distinct (map service_key_of (services (registerServices_cleanup n L s st')))"
    if "distinct (map service_key_of (services st'))" for s st'
    using that by (simp add: registerServices_cleanup_def unregisterService_def unique_services_remove)
  have "distinct (map service_key_of
          (services (services_forEach 0 len (registerServices_cleanup n L) st')))"
    if "distinct (map service_key_of (services st'))" for st' len
    by (rule services_forEach_invariant[where Q = "\<lambda>st. distinct (map service_key_of (services st))"])
       (simp_all add: c that)
  with unique_services_serviceList_forEach[OF assms, of n L] show ?thesis
    by (cases "serviceList_forEach n L st") (simp_all add: registerServices_def)
qed

lemma unique_services_nodeDisconnected:
  assumes "distinct (map service_key_of (services st))"
  shows "distinct (map service_key_of (services (nodeDisconnected st n u)))"
proof -
  have "distinct (map service_key_of (services (unregisterServicesByNode (node_disconnected st n u) n)))"
    unfolding unregisterServicesByNode_def services_removeAllByNodeID_def
      services_fold_services_remove
    using assms by (intro distinct_map_filter) (simp add: node_disconnected_def)
  then show ?thesis
    using assms
    by (auto simp: nodeDisconnected_def Let_def broker_emitLocal_def logger_warn_def
        broker_servicesChanged_def split: option.splits)
qed

lemma unique_services_registerLocalService:
  assumes "distinct (map service_key_of (services st))"
    and "services_get st (svc_name svc) (svc_version svc) (localNode st) = None"
  shows "distinct (map service_key_of (services (registerLocalService st svc)))"
proof -
  from assms(2) have "(svc_name svc, svc_version svc, localNode st) \<notin> set (map service_key_of (services st))"
    unfolding key_in_keys_iff by (simp add: services_get_def find_index_None)
  with assms(1) show ?thesis
    by (simp add: registerLocalService_def case_prod_beta logger_info_def Let_def)
qed

text \<open>
  Claim C7 at the input that breaks it. \<^verbatim>\<open>registerLocalService\<close> adds to the service
  catalog without looking the service up, as \<^verbatim>\<open>registerServices\<close> does: after two calls
  with the same descriptor the catalog holds two entries of the triple
  (\<^verbatim>\<open>math\<close>, no version, \<^verbatim>\<open>local\<close>). The action entry still has one endpoint of the
  node.
\<close>

theorem registerLocalService_twice:
  "reachable exampleTwice \<and>
   map service_key_of (services exampleTwice) =
     [(''math'', VUndefined, ''local''), (''math'', VUndefined, ''local'')] \<and>
   map_option (map ep_node) (getActionEndpoints exampleTwice ''math.add'') = Some [''local'']"
proof -
  have "reachable exampleTwice"
    unfolding exampleTwice_def by (intro reachable.intros) (simp_all add: emptyRegistry_def)
  moreover have "map service_key_of (services exampleTwice) =
     [(''math'', VUndefined, ''local''), (''math'', VUndefined, ''local'')]" by code_simp
  moreover have "map_option (map ep_node) (getActionEndpoints exampleTwice ''math.add'') =
     Some [''local'']" by code_simp
  ultimately show ?thesis by blast
qed

end
